theory Spec2Isabelle
  imports Complex_Main "HOL-Library.Sublist"
begin

section \<open>Strings and paths\<close>

text \<open>
  A Python string is modelled by its UTF-8 bytes, as the file system has the names.
  \<open>str.lower\<close> is modelled on the ASCII letters and leaves every other byte as it
  is: the patterns searched below are ASCII, and whether they match does not depend on
  how the other characters are lowercased.
\<close>

definition char_lower :: "char \<Rightarrow> char" where
  "char_lower c =
     (let n = (of_char c :: nat) in if 65 \<le> n \<and> n \<le> 90 then char_of (n + 32) else c)"

definition lower :: "string \<Rightarrow> string" where
  "lower s = map char_lower s"

text \<open>Python's \<^verbatim>\<open>r in s\<close> on strings: \<open>r\<close> occurs in \<open>s\<close> as a contiguous run.\<close>

fun contains :: "string \<Rightarrow> string \<Rightarrow> bool" where
  "contains r [] = (r = [])"
| "contains r (c # cs) = (prefix r (c # cs) \<or> contains r cs)"

text \<open>
  \<^verbatim>\<open>pathlib.Path\<close> (POSIX flavour): the path is cut at \<open>/\<close>, empty segments and
  \<open>.\<close> segments are dropped, and a leading \<open>/\<close> (or exactly two of them) is the root,
  which is a part of its own.
\<close>

fun split_on :: "char \<Rightarrow> string \<Rightarrow> string list" where
  "split_on d [] = [[]]"
| "split_on d (c # cs) =
     (if c = d then [] # split_on d cs
      else (case split_on d cs of [] \<Rightarrow> [[c]] | x # xs \<Rightarrow> (c # x) # xs))"

definition path_root :: "string \<Rightarrow> string" where
  "path_root s =
     (if prefix ''//'' s \<and> \<not> prefix ''///'' s then ''//''
      else if prefix ''/'' s then ''/'' else [])"

definition path_tail :: "string \<Rightarrow> string list" where
  "path_tail s = filter (\<lambda>x. x \<noteq> [] \<and> x \<noteq> ''.'') (split_on (CHR ''/'') s)"

definition path_parts :: "string \<Rightarrow> string list" where
  "path_parts s = (if path_root s = [] then [] else [path_root s]) @ path_tail s"

definition path_name :: "string \<Rightarrow> string" where
  "path_name s = (if path_tail s = [] then [] else last (path_tail s))"

fun join_slash :: "string list \<Rightarrow> string" where
  "join_slash [] = []"
| "join_slash [x] = x"
| "join_slash (x # y # ys) = x @ ''/'' @ join_slash (y # ys)"

definition path_str :: "string \<Rightarrow> string" where
  "path_str s =
     (if path_root s = [] \<and> path_tail s = [] then ''.''
      else path_root s @ join_slash (path_tail s))"

section \<open>Metadata extraction: \<^verbatim>\<open>parse_filename\<close>\<close>

text \<open>
  Python's \<^verbatim>\<open>\d\<close> and \<^verbatim>\<open>int\<close> work on characters, not bytes, and accept every
  Unicode decimal digit. \<open>first_char\<close> is the first character of a string, cut off by
  the length that its first byte announces. The table of the decimal digits is the
  parameter \<open>decimal\<close>: it gives the digit value of a character (given by its bytes),
  and \<open>None\<close> for a character that is not a decimal digit. \<open>ascii_digits\<close> says that a
  table is right on the ASCII characters.
\<close>

definition utf8_len :: "char \<Rightarrow> nat" where
  "utf8_len c =
     (let n = (of_char c :: nat)
      in if 192 \<le> n \<and> n < 224 then 2
         else if 224 \<le> n \<and> n < 240 then 3
         else if 240 \<le> n \<and> n < 248 then 4 else 1)"

definition first_char :: "string \<Rightarrow> string" where
  "first_char s = (case s of [] \<Rightarrow> [] | c # cs \<Rightarrow> take (utf8_len c) (c # cs))"

definition ascii_digits :: "(string \<Rightarrow> nat option) \<Rightarrow> bool" where
  "ascii_digits decimal =
     (\<forall>c. (of_char c :: nat) < 128 \<longrightarrow>
        decimal [c] = (if c \<in> set ''0123456789'' then Some (of_char c - 48) else None))"

text \<open>\<^verbatim>\<open>\d+\<close> at the start of \<open>s\<close>: the longest run of digit characters.\<close>

function digit_run :: "(string \<Rightarrow> nat option) \<Rightarrow> string \<Rightarrow> string list" where
  "digit_run decimal s =
     (if s = [] \<or> decimal (first_char s) = None then []
      else first_char s # digit_run decimal (drop (length (first_char s)) s))"
  by pat_completeness auto
termination
proof (relation "measure (\<lambda>(decimal, s). length s)")
  show "wf (measure (\<lambda>(decimal, s). length s))" by simp
next
  fix decimal :: "string \<Rightarrow> nat option" and s :: string
  assume "\<not> (s = [] \<or> decimal (first_char s) = None)"
  then obtain c cs where s: "s = c # cs" by (cases s) auto
  have "0 < utf8_len c" by (simp add: utf8_len_def Let_def)
  then have "0 < length (first_char s)" by (simp add: s first_char_def)
  then show "((decimal, drop (length (first_char s)) s), (decimal, s))
      \<in> measure (\<lambda>(decimal, s). length s)"
    by (simp add: s)
qed

declare digit_run.simps [simp del]

text \<open>\<^verbatim>\<open>int(group)\<close> on a run of decimal digits.\<close>

definition int_of_digits :: "(string \<Rightarrow> nat option) \<Rightarrow> string list \<Rightarrow> nat" where
  "int_of_digits decimal ds =
     foldl (\<lambda>n d. 10 * n + (case decimal d of Some v \<Rightarrow> v | None \<Rightarrow> 0)) 0 ds"

text \<open>
  \<^verbatim>\<open>re.search\<close>: the pattern is tried at every position from the left, the empty
  suffix included; the first position where it matches gives the result. (The patterns
  below start with an ASCII character, so they match at the beginning of a character
  only.)
\<close>

fun re_search :: "(string \<Rightarrow> 'a option) \<Rightarrow> string \<Rightarrow> 'a option" where
  "re_search m [] = m []"
| "re_search m (c # cs) = (case m (c # cs) of Some g \<Rightarrow> Some g | None \<Rightarrow> re_search m cs)"

text \<open>
  The pattern \<^verbatim>\<open>lit(\d+)\<close> at the start of \<open>s\<close>: the literal, then the longest
  run of digits, which must not be empty. The result is group 1, as the list of its
  characters.
\<close>

definition match_lit_digits ::
  "(string \<Rightarrow> nat option) \<Rightarrow> string \<Rightarrow> string \<Rightarrow> string list option" where
  "match_lit_digits decimal lit s =
     (if prefix lit s
      then (let ds = digit_run decimal (drop (length lit) s)
            in if ds = [] then None else Some ds)
      else None)"

text \<open>
  The pattern \<^verbatim>\<open>c(\d+)(?=\.tif)\<close> at the start of \<open>s\<close>: after \<open>c\<close> the group first
  takes the longest run of digits and gives digits back one at a time (down to one
  digit) until the look-ahead finds \<open>.tif\<close> right after the group.
\<close>

fun backtrack_tif :: "nat \<Rightarrow> string list \<Rightarrow> string \<Rightarrow> string list option" where
  "backtrack_tif 0 ds r = None"
| "backtrack_tif (Suc k) ds r =
     (if prefix ''.tif'' (drop (length (concat (take (Suc k) ds))) r)
      then Some (take (Suc k) ds) else backtrack_tif k ds r)"

definition match_channel :: "(string \<Rightarrow> nat option) \<Rightarrow> string \<Rightarrow> string list option" where
  "match_channel decimal s =
     (if prefix ''c'' s
      then backtrack_tif (length (digit_run decimal (drop 1 s))) (digit_run decimal (drop 1 s))
             (drop 1 s)
      else None)"

record metadata =
  filename :: string
  region :: string
  genotype :: string
  seedling :: "nat option"
  zslice :: "nat option"
  channel :: string
  magnification :: string
  fluorophore :: string

text \<open>
  \<^verbatim>\<open>next((r for r in kws if any(r in s for s in parts)), "unknown")\<close>
\<close>

definition first_keyword :: "string list \<Rightarrow> string list \<Rightarrow> string" where
  "first_keyword kws parts =
     (case find (\<lambda>r. list_ex (contains r) parts) kws of
        None \<Rightarrow> ''unknown'' | Some r \<Rightarrow> r)"

definition parse_filename :: "(string \<Rightarrow> nat option) \<Rightarrow> string \<Rightarrow> metadata" where
  "parse_filename decimal file_path =
     (let fname = lower (path_name file_path);
          parts = map lower (path_parts file_path)
      in \<lparr> filename = path_str file_path,
           region = first_keyword [''meristem'', ''elongation''] parts,
           genotype = first_keyword [''control'', ''mutant''] parts,
           seedling = map_option (int_of_digits decimal)
                        (re_search (match_lit_digits decimal ''seedling'') fname),
           zslice = map_option (int_of_digits decimal)
                      (re_search (match_lit_digits decimal ''_z'') fname),
           channel = (case re_search (match_channel decimal) fname of
                        Some g \<Rightarrow> ''c'' @ concat g | None \<Rightarrow> ''unknown''),
           magnification = ''40x'',
           fluorophore = ''mCherry-H2B'' \<rparr>)"

section \<open>Aggregation and persistence: \<^verbatim>\<open>store_measurements_in_sql\<close>\<close>

text \<open>
  A measurement is the dictionary built by \<^verbatim>\<open>segment_and_measure_spots\<close>. The numeric
  fields are floating-point numbers in the program; they are modelled as rationals, so
  the theorems below are about the arithmetic the program writes, not about rounding.
\<close>

record measurement =
  label :: nat
  area_pixels :: rat
  mean_intensity :: rat
  integrated_intensity :: rat

text \<open>Python's \<^verbatim>\<open>sum\<close>: a left fold that starts at 0.\<close>

definition py_sum :: "rat list \<Rightarrow> rat" where
  "py_sum xs = foldl (+) 0 xs"

record csv_row =
  row_filename :: string
  row_region :: string
  row_genotype :: string
  row_seedling :: "nat option"
  row_zslice :: "nat option"
  row_total_area :: rat
  row_integrated_intensity :: rat
  row_mean_intensity :: rat

datatype csv_line = Header "string list" | Row csv_row

record spot_row =
  spot_filename :: string
  spot_magnification :: string
  spot_zslice :: "nat option"
  spot_channel :: string
  spot_label :: nat
  spot_area_pixels :: rat
  spot_mean_intensity :: rat
  spot_integrated_intensity :: rat

record image_row =
  image_filename :: string
  image_magnification :: string
  image_zslice :: "nat option"
  image_channel :: string
  image_total_area :: rat
  image_mean_intensity :: rat
  image_integrated_intensity :: rat

text \<open>
  The result sink: the summary CSV file (\<open>None\<close> while the file does not exist) and
  the two tables of the database.
\<close>

record sink =
  summary_csv :: "csv_line list option"
  spots_table :: "spot_row list"
  images_table :: "image_row list"

definition csv_header :: "string list" where
  "csv_header = [''filename'', ''region'', ''genotype'', ''seedling'', ''zslice'',
                 ''total_area'', ''integrated_intensity'', ''mean_intensity'']"

text \<open>
  The function mutates its \<open>metadata\<close> argument (a dictionary) and writes to the sink;
  the model returns both.
\<close>

definition store_measurements_in_sql ::
  "sink \<Rightarrow> metadata \<Rightarrow> measurement list \<Rightarrow> metadata \<times> sink" where
  "store_measurements_in_sql db meta measurements =
     (let total_area = py_sum (map area_pixels measurements);
          total_intensity = py_sum (map integrated_intensity measurements);
          mean_int = (if total_area \<noteq> 0 then total_intensity / total_area else 0);
          fname_lower = lower (filename meta);
          meta1 = meta\<lparr>region :=
                    (if contains ''meristem'' fname_lower then ''meristem'' else ''elongation'')\<rparr>;
          meta2 = meta1\<lparr>genotype :=
                    (if contains ''control'' fname_lower then ''control'' else ''mutant'')\<rparr>;
          row = \<lparr> row_filename = filename meta2, row_region = region meta2,
                  row_genotype = genotype meta2, row_seedling = seedling meta2,
                  row_zslice = zslice meta2, row_total_area = total_area,
                  row_integrated_intensity = total_intensity,
                  row_mean_intensity = mean_int \<rparr>;
          csv' = (case summary_csv db of
                    None \<Rightarrow> [Header csv_header, Row row]
                  | Some ls \<Rightarrow> ls @ [Row row]);
          spots' = spots_table db @
                   map (\<lambda>m. \<lparr> spot_filename = filename meta2,
                               spot_magnification = magnification meta2,
                               spot_zslice = zslice meta2,
                               spot_channel = channel meta2,
                               spot_label = label m,
                               spot_area_pixels = area_pixels m,
                               spot_mean_intensity = mean_intensity m,
                               spot_integrated_intensity = integrated_intensity m \<rparr>)
                       measurements;
          total_area2 = py_sum (map area_pixels measurements);
          total_intensity2 = py_sum (map integrated_intensity measurements);
          mean_int2 = (if total_area2 \<noteq> 0 then total_intensity2 / total_area2 else 0);
          images' = images_table db @
                    [\<lparr> image_filename = filename meta2,
                       image_magnification = magnification meta2,
                       image_zslice = zslice meta2,
                       image_channel = channel meta2,
                       image_total_area = total_area2,
                       image_mean_intensity = mean_int2,
                       image_integrated_intensity = total_intensity2 \<rparr>]
      in (meta2, \<lparr> summary_csv = Some csv', spots_table = spots', images_table = images' \<rparr>))"

text \<open>The summary row and the image row that one call appends.\<close>

definition written_row :: "metadata \<times> sink \<Rightarrow> csv_line" where
  "written_row r = last (the (summary_csv (snd r)))"

definition written_image :: "metadata \<times> sink \<Rightarrow> image_row" where
  "written_image r = last (images_table (snd r))"

text \<open>
  What the three searches find, said without the search. \<open>digit_chars\<close>: the
  characters \<open>ds\<close> are the first characters of \<open>r\<close> and all are decimal digits.
  \<open>token_at\<close>: at position \<open>k\<close> of \<open>s\<close> stands the token \<open>lit\<close>, immediately followed by
  the digits \<open>ds\<close>, after which comes no further digit, and immediately after the digits
  stands the text \<open>follow\<close> (whatever comes after that text). \<open>first_token\<close> takes the
  leftmost such position. For the channel, \<open>follow\<close> is the text \<open>.tif\<close> of the pattern:
  it need not be the extension of the file.
\<close>

fun digit_chars :: "(string \<Rightarrow> nat option) \<Rightarrow> string list \<Rightarrow> string \<Rightarrow> bool" where
  "digit_chars decimal [] r = True"
| "digit_chars decimal (d # ds) r =
     (r \<noteq> [] \<and> d = first_char r \<and> decimal d \<noteq> None \<and>
      digit_chars decimal ds (drop (length d) r))"

definition token_at ::
  "(string \<Rightarrow> nat option) \<Rightarrow> string \<Rightarrow> string \<Rightarrow> string \<Rightarrow> nat \<Rightarrow> string list \<Rightarrow> bool" where
  "token_at decimal lit follow s k ds =
     (k \<le> length s \<and> ds \<noteq> [] \<and> prefix lit (drop k s) \<and>
      digit_chars decimal ds (drop (k + length lit) s) \<and>
      (drop (k + length lit + length (concat ds)) s = [] \<or>
       decimal (first_char (drop (k + length lit + length (concat ds)) s)) = None) \<and>
      prefix follow (drop (k + length lit + length (concat ds)) s))"

definition first_token ::
  "(string \<Rightarrow> nat option) \<Rightarrow> string \<Rightarrow> string \<Rightarrow> string \<Rightarrow> string list \<Rightarrow> bool" where
  "first_token decimal lit follow s ds =
     (\<exists>k. token_at decimal lit follow s k ds \<and>
          (\<forall>j<k. \<forall>d. \<not> token_at decimal lit follow s j d))"

text \<open>
  The words of the specification for the channel: in the name \<open>s\<close> the digits \<open>ds\<close>
  immediately follow a \<open>c\<close> and immediately precede the file extension, which is the
  part of the name from its last dot; \<open>name_stem\<close> is the name without its extension.
\<close>

definition name_stem :: "string \<Rightarrow> string option" where
  "name_stem s =
     (if CHR ''.'' \<in> set s
      then Some (rev (drop 1 (dropWhile (\<lambda>c. c \<noteq> CHR ''.'') (rev s))))
      else None)"

definition before_extension :: "(string \<Rightarrow> nat option) \<Rightarrow> string \<Rightarrow> string list \<Rightarrow> bool" where
  "before_extension decimal s ds =
     (ds \<noteq> [] \<and> list_all (\<lambda>d. decimal d \<noteq> None) ds \<and>
      (case name_stem s of None \<Rightarrow> False | Some stem \<Rightarrow> suffix (''c'' @ concat ds) stem))"

text \<open>
  A table of decimal digits for the examples: the ASCII digits and the Arabic-Indic
  digits U+0660 to U+0669 (the bytes D9 A0 to D9 A9).
\<close>

definition example_decimal :: "string \<Rightarrow> nat option" where
  "example_decimal d =
     (case d of
        [c] \<Rightarrow> (if c \<in> set ''0123456789'' then Some (of_char c - 48) else None)
      | [a, b] \<Rightarrow>
          (if a = CHR 0xD9 \<and> (160::nat) \<le> of_char b \<and> (of_char b :: nat) \<le> 169
           then Some (of_char b - 160) else None)
      | _ \<Rightarrow> None)"

section \<open>Image arrays\<close>

text \<open>
  A numpy array of an unsigned integer type (the images are 8-bit or 16-bit): its shape
  and its elements in row-major order. \<open>wf_array\<close> says that the two fit.
\<close>

record ndarray =
  shape :: "nat list"
  data :: "nat list"

definition wf_array :: "ndarray \<Rightarrow> bool" where
  "wf_array a = (length (data a) = prod_list (shape a))"

datatype error = ValueError | IndexError

text \<open>
  A floating-point value. Finite values are idealised as rationals; the two other
  constructors are the results IEEE arithmetic gives to a division by zero: \<open>NaN\<close>
  for 0/0 and \<open>Inf\<close> for a non-zero numerator. numpy warns and does not raise.
\<close>

datatype fl = Fin rat | Inf | NaN

definition fl_div :: "rat \<Rightarrow> rat \<Rightarrow> fl" where
  "fl_div a d = (if d \<noteq> 0 then Fin (a / d) else if a = 0 then NaN else Inf)"

definition fl_mul :: "fl \<Rightarrow> rat \<Rightarrow> fl" where
  "fl_mul x k = (case x of Fin a \<Rightarrow> Fin (a * k) | Inf \<Rightarrow> Inf | NaN \<Rightarrow> NaN)"

text \<open>
  \<^verbatim>\<open>astype(np.uint8)\<close> on a float: a finite value is truncated and reduced modulo 256
  (the values here are never negative); the result for \<open>NaN\<close> and \<open>Inf\<close> is not defined
  by numpy and is the parameter \<open>ub\<close>.
\<close>

definition astype_uint8 :: "nat \<Rightarrow> fl \<Rightarrow> nat" where
  "astype_uint8 ub x = (case x of Fin q \<Rightarrow> nat (\<lfloor>q\<rfloor> mod 256) | Inf \<Rightarrow> ub | NaN \<Rightarrow> ub)"

definition array_min :: "nat list \<Rightarrow> nat" where
  "array_min xs = fold min (tl xs) (hd xs)"

definition array_max :: "nat list \<Rightarrow> nat" where
  "array_max xs = fold max (tl xs) (hd xs)"

text \<open>
  The float stage of \<^verbatim>\<open>normalize_image\<close>:
  \<^verbatim>\<open>(img - img.min()) / (img.max() - img.min()) * 255\<close>.
\<close>

definition normalize_float :: "nat list \<Rightarrow> fl list" where
  "normalize_float xs =
     map (\<lambda>x. fl_mul (fl_div (of_nat x - of_nat (array_min xs))
                              (of_nat (array_max xs) - of_nat (array_min xs))) 255) xs"

text \<open>\<^verbatim>\<open>img.min()\<close> raises ValueError on an array without elements.\<close>

definition normalize_image :: "nat \<Rightarrow> ndarray \<Rightarrow> error + ndarray" where
  "normalize_image ub img =
     (if data img = [] then Inl ValueError
      else Inr \<lparr> shape = shape img, data = map (astype_uint8 ub) (normalize_float (data img)) \<rparr>)"

text \<open>\<^verbatim>\<open>np.mean(img, axis=2).astype(np.uint8)\<close> on an array of shape \<open>[h, w, 3]\<close>.\<close>

definition rgb_to_gray :: "nat \<Rightarrow> ndarray \<Rightarrow> ndarray" where
  "rgb_to_gray ub img =
     \<lparr> shape = take 2 (shape img),
       data = map (\<lambda>k. astype_uint8 ub
                         (Fin (of_nat (data img ! (3 * k) + data img ! (3 * k + 1) +
                                       data img ! (3 * k + 2)) / 3)))
                  [0..<prod_list (take 2 (shape img))] \<rparr>"

text \<open>\<^verbatim>\<open>img[0, ...]\<close>: the first plane along the leading axis; IndexError when there is none.\<close>

definition first_plane :: "ndarray \<Rightarrow> error + ndarray" where
  "first_plane img =
     (if hd (shape img) = 0 then Inl IndexError
      else Inr \<lparr> shape = tl (shape img), data = take (prod_list (tl (shape img))) (data img) \<rparr>)"

text \<open>
  What \<^verbatim>\<open>tifffile.imread\<close> does with a file is a parameter: it raises, returns
  something that is not an array, or returns an array.
\<close>

datatype read_result = Raises | NotArray | Array ndarray

definition load_tif :: "nat \<Rightarrow> (string \<Rightarrow> read_result) \<Rightarrow> string \<Rightarrow> ndarray option" where
  "load_tif ub imread fname =
     (case imread fname of
        Raises \<Rightarrow> None
      | NotArray \<Rightarrow> None
      | Array img \<Rightarrow>
          (case (if length (shape img) = 3 \<and> shape img ! 2 = 3 then Inr (rgb_to_gray ub img)
                 else if length (shape img) > 2 then first_plane img
                 else Inr img) of
             Inl e \<Rightarrow> None
           | Inr img1 \<Rightarrow>
               (case normalize_image ub img1 of Inl e \<Rightarrow> None | Inr out \<Rightarrow> Some out)))"

section \<open>Grids, pixels and connected components\<close>

type_synonym pixel = "nat \<times> nat"
type_synonym 'a grid = "'a list list"

text \<open>A two-dimensional array as the list of its rows.\<close>

definition to_grid :: "ndarray \<Rightarrow> nat grid" where
  "to_grid a =
     map (\<lambda>i. map (\<lambda>j. data a ! (i * (shape a ! 1) + j)) [0..<shape a ! 1]) [0..<shape a ! 0]"

definition px :: "'a grid \<Rightarrow> pixel \<Rightarrow> 'a" where
  "px g p = g ! fst p ! snd p"

text \<open>The positions of a grid in raster order.\<close>

definition all_pixels :: "'a grid \<Rightarrow> pixel list" where
  "all_pixels g = concat (map (\<lambda>i. map (Pair i) [0..<length (g ! i)]) [0..<length g])"

definition pixels_where :: "('a \<Rightarrow> bool) \<Rightarrow> 'a grid \<Rightarrow> pixel list" where
  "pixels_where P g = filter (\<lambda>p. P (px g p)) (all_pixels g)"

definition grid_map :: "(pixel \<Rightarrow> 'a \<Rightarrow> 'b) \<Rightarrow> 'a grid \<Rightarrow> 'b grid" where
  "grid_map f g =
     map (\<lambda>i. map (\<lambda>j. f (i, j) (g ! i ! j)) [0..<length (g ! i)]) [0..<length g]"

text \<open>
  Neighbourhoods: \<open>adj4\<close> is connectivity 1 (the cross of
  \<^verbatim>\<open>generate_binary_structure(2, 1)\<close>), \<open>adj8\<close> is connectivity 2, the default of
  \<^verbatim>\<open>skimage.measure.label\<close> on a two-dimensional array.
\<close>

definition adj4 :: "pixel \<Rightarrow> pixel \<Rightarrow> bool" where
  "adj4 p q =
     ((fst p = fst q \<and> (snd p = Suc (snd q) \<or> snd q = Suc (snd p))) \<or>
      (snd p = snd q \<and> (fst p = Suc (fst q) \<or> fst q = Suc (fst p))))"

definition adj8 :: "pixel \<Rightarrow> pixel \<Rightarrow> bool" where
  "adj8 p q =
     (p \<noteq> q \<and> fst p \<le> Suc (fst q) \<and> fst q \<le> Suc (fst p) \<and>
      snd p \<le> Suc (snd q) \<and> snd q \<le> Suc (snd p))"

text \<open>
  The connected component of a pixel among the pixels \<open>ps\<close>: the current set \<open>C\<close> grows
  by the pixels of \<open>ps\<close> that touch it until nothing is added.
\<close>

definition expand :: "(pixel \<Rightarrow> pixel \<Rightarrow> bool) \<Rightarrow> pixel list \<Rightarrow> pixel list \<Rightarrow> pixel list" where
  "expand adj ps C = filter (\<lambda>q. q \<in> set C \<or> list_ex (\<lambda>p. adj p q) C) ps"

function closure :: "(pixel \<Rightarrow> pixel \<Rightarrow> bool) \<Rightarrow> pixel list \<Rightarrow> pixel list \<Rightarrow> pixel list" where
  "closure adj ps C =
     (if length (expand adj ps C) \<le> length C then C else closure adj ps (expand adj ps C))"
  by pat_completeness auto
termination
proof (relation "measure (\<lambda>(adj, ps, C). length ps - length C)")
  show "wf (measure (\<lambda>(adj, ps, C). length ps - length C))" by simp
next
  fix adj :: "pixel \<Rightarrow> pixel \<Rightarrow> bool" and ps C :: "pixel list"
  assume "\<not> length (expand adj ps C) \<le> length C"
  moreover have "length (expand adj ps C) \<le> length ps"
    by (simp add: expand_def)
  ultimately show "((adj, ps, expand adj ps C), (adj, ps, C))
      \<in> measure (\<lambda>(adj, ps, C). length ps - length C)"
    by simp
qed

declare closure.simps [simp del]

definition component :: "(pixel \<Rightarrow> pixel \<Rightarrow> bool) \<Rightarrow> pixel list \<Rightarrow> pixel \<Rightarrow> pixel list" where
  "component adj ps p = closure adj ps (filter (\<lambda>q. q = p) ps)"

text \<open>
  The components in the order of their first pixel: the first pixel left over starts
  the next component, and the component is taken out of the list.
\<close>

function components :: "(pixel \<Rightarrow> pixel \<Rightarrow> bool) \<Rightarrow> pixel list \<Rightarrow> pixel list list" where
  "components adj [] = []"
| "components adj (p # ps) =
     component adj (p # ps) p #
     components adj (filter (\<lambda>q. q \<notin> set (component adj (p # ps) p)) ps)"
  by pat_completeness auto
termination
  by (relation "measure (\<lambda>(adj, ps). length ps)") (simp_all add: less_Suc_eq_le)

declare components.simps [simp del]

fun label_from :: "nat \<Rightarrow> pixel list list \<Rightarrow> pixel \<Rightarrow> nat" where
  "label_from k [] p = 0"
| "label_from k (C # cs) p = (if p \<in> set C then k else label_from (Suc k) cs p)"

text \<open>
  The label image of a mask: background is 0, the components of the foreground are
  numbered from 1 in raster order of their first pixel.
\<close>

definition label_image :: "(pixel \<Rightarrow> pixel \<Rightarrow> bool) \<Rightarrow> bool grid \<Rightarrow> nat grid" where
  "label_image adj m =
     grid_map (\<lambda>p v. if v then label_from 1 (components adj (pixels_where id m)) p else 0) m"

section \<open>Segmentation: \<^verbatim>\<open>segment_and_measure_spots\<close>\<close>

text \<open>\<^verbatim>\<open>np.bincount\<close>: how often each value from 0 to the maximum occurs.\<close>

definition bincount :: "nat list \<Rightarrow> nat list" where
  "bincount xs = (if xs = [] then [] else map (count_list xs) [0..<Suc (fold max xs 0)])"

text \<open>
  \<^verbatim>\<open>morphology.remove_small_objects(ar, min_size)\<close> on a boolean array: the array is
  labelled with connectivity 1, and the pixels of every label that occurs fewer than
  \<open>min_size\<close> times are cleared.
\<close>

definition remove_small_objects :: "bool grid \<Rightarrow> int \<Rightarrow> bool grid" where
  "remove_small_objects ar min_size =
     (if min_size = 0 then ar
      else (let ccs = label_image adj4 ar;
                component_sizes = bincount (concat ccs)
            in grid_map (\<lambda>p v. if int (component_sizes ! px ccs p) < min_size then False else v)
                 ar))"

text \<open>The first and the last index of either axis.\<close>

definition on_border :: "'a grid \<Rightarrow> pixel \<Rightarrow> bool" where
  "on_border g p =
     (fst p = 0 \<or> Suc (fst p) = length g \<or> snd p = 0 \<or> Suc (snd p) = length (g ! fst p))"

text \<open>
  \<^verbatim>\<open>segmentation.clear_border(labels)\<close> with the default buffer size 0: ValueError for
  an axis of length 0; otherwise the array is labelled with \<^verbatim>\<open>measure.label\<close> and every
  pixel whose label occurs on the border is cleared.
\<close>

definition clear_border :: "bool grid \<Rightarrow> error + bool grid" where
  "clear_border labels =
     (if labels = [] \<or> hd labels = [] then Inl ValueError
      else (let lab = label_image adj8 labels;
                borders_indices = map (px lab) (filter (on_border labels) (all_pixels labels))
            in Inr (grid_map (\<lambda>p v. if px lab p \<in> set borders_indices then False else v)
                      labels)))"

text \<open>
  \<^verbatim>\<open>measure.regionprops(labeled)\<close>: one region for every label from 1 to the maximum
  that occurs in the label image, in increasing order, with the pixels that carry it.
\<close>

definition regionprops :: "nat grid \<Rightarrow> (nat \<times> pixel list) list" where
  "regionprops labeled =
     concat (map (\<lambda>l. if pixels_where (\<lambda>v. v = l) labeled = [] then []
                       else [(l, pixels_where (\<lambda>v. v = l) labeled)])
                 [1..<Suc (fold max (concat labeled) 0)])"

text \<open>
  The library functions whose values the properties below do not depend on are
  parameters: the local threshold at a pixel of an image, and the binary closing and
  opening with a disk of a given radius.
\<close>

record skimage =
  threshold_local :: "nat grid \<Rightarrow> pixel \<Rightarrow> rat"
  binary_closing :: "nat \<Rightarrow> bool grid \<Rightarrow> bool grid"
  binary_opening :: "nat \<Rightarrow> bool grid \<Rightarrow> bool grid"

definition measure_region :: "nat grid \<Rightarrow> nat \<times> pixel list \<Rightarrow> measurement" where
  "measure_region intensity r =
     (let area = of_nat (length (snd r));
          mean = sum_list (map (\<lambda>p. of_nat (px intensity p)) (snd r)) / of_nat (length (snd r))
      in \<lparr> label = fst r, area_pixels = area, mean_intensity = mean,
           integrated_intensity = mean * area \<rparr>)"

text \<open>
  The function raises on an image that is not two-dimensional (the footprints are), and
  \<^verbatim>\<open>regionprops\<close> raises when label image and intensity image differ in shape.
\<close>

definition segment_and_measure_spots ::
  "skimage \<Rightarrow> ndarray \<Rightarrow> int \<Rightarrow> nat \<Rightarrow> nat \<Rightarrow> error + (measurement list \<times> bool grid)" where
  "segment_and_measure_spots lib im min_area closing_radius opening_radius =
     (if length (shape im) \<noteq> 2 then Inl ValueError
      else (let img = to_grid im;
                mask0 = grid_map (\<lambda>p v. threshold_local lib img p < of_nat v) img;
                mask1 = binary_closing lib closing_radius mask0;
                mask2 = binary_opening lib opening_radius mask1;
                mask3 = remove_small_objects mask2 min_area
            in (case clear_border mask3 of
                  Inl e \<Rightarrow> Inl e
                | Inr mask4 \<Rightarrow>
                    (let labeled = label_image adj8 mask4
                     in if map length labeled \<noteq> map length img then Inl ValueError
                        else Inr (map (measure_region img) (regionprops labeled), mask4)))))"

section \<open>Connectivity\<close>

text \<open>
  Two pixels of \<open>ps\<close> are linked when they are neighbours; they are connected when a
  chain of links leads from one to the other. The connected components of \<open>ps\<close> are
  the classes of this relation.
\<close>

definition link :: "(pixel \<Rightarrow> pixel \<Rightarrow> bool) \<Rightarrow> pixel list \<Rightarrow> (pixel \<times> pixel) set" where
  "link adj ps = {(a, b). a \<in> set ps \<and> b \<in> set ps \<and> adj a b}"

definition connected :: "(pixel \<Rightarrow> pixel \<Rightarrow> bool) \<Rightarrow> pixel list \<Rightarrow> pixel \<Rightarrow> pixel \<Rightarrow> bool" where
  "connected adj ps a b = ((a, b) \<in> (link adj ps)\<^sup>*)"

definition component_classes :: "(pixel \<Rightarrow> pixel \<Rightarrow> bool) \<Rightarrow> pixel list \<Rightarrow> pixel set set" where
  "component_classes adj ps =
     set ps // {(a, b). a \<in> set ps \<and> b \<in> set ps \<and> connected adj ps a b}"

section \<open>The batch: \<^verbatim>\<open>process_folder\<close>\<close>

text \<open>
  The loop body of \<^verbatim>\<open>process_folder\<close> for one file, with its \<^verbatim>\<open>try\<close>/\<^verbatim>\<open>except\<close>:
  a file that does not load is skipped, an exception of the segmentation is caught, and
  in both cases the sink is left as it was. The list of files is the sorted result of
  the glob. Writing the picture of the segmentation is outside the model.
\<close>

datatype outcome = LoadFailed | Raised error | Stored nat

record env =
  digit_table :: "string \<Rightarrow> nat option"
  nonfinite_cast :: nat
  imread :: "string \<Rightarrow> read_result"
  library :: skimage

definition min_area_px :: int where
  "min_area_px = 5"

definition process_file :: "env \<Rightarrow> sink \<Rightarrow> string \<Rightarrow> sink \<times> outcome" where
  "process_file e db fname =
     (let meta = parse_filename (digit_table e) fname
      in case load_tif (nonfinite_cast e) (imread e) fname of
           None \<Rightarrow> (db, LoadFailed)
         | Some img \<Rightarrow>
             (case segment_and_measure_spots (library e) img min_area_px 3 1 of
                Inl err \<Rightarrow> (db, Raised err)
              | Inr (spots, mask4) \<Rightarrow>
                  (snd (store_measurements_in_sql db meta spots), Stored (length spots))))"

fun process_folder :: "env \<Rightarrow> sink \<Rightarrow> string list \<Rightarrow> sink \<times> (string \<times> outcome) list" where
  "process_folder e db [] = (db, [])"
| "process_folder e db (fname # rest) =
     (let (db1, r) = process_file e db fname;
          (db2, rs) = process_folder e db1 rest
      in (db2, (fname, r) # rs))"

text \<open>A small image and environment on which the theorems below are instantiated.\<close>

definition example_lib :: skimage where
  "example_lib = \<lparr> threshold_local = (\<lambda>g p. 100), binary_closing = (\<lambda>r m. m),
                   binary_opening = (\<lambda>r m. m) \<rparr>"

definition example_image :: ndarray where
  "example_image = \<lparr> shape = [5, 7], data =
      [180, 0,   0,   0,   0,   0,   0,
       0,   0,   200, 0,   0,   0,   0,
       0,   200, 250, 200, 0,   150, 0,
       0,   0,   200, 0,   0,   0,   0,
       0,   0,   0,   0,   0,   0,   0] \<rparr>"

definition example_mask :: "bool grid" where
  "example_mask =
     [[False, False, False, False, False, False, False],
      [False, False, True,  False, False, False, False],
      [False, True,  True,  True,  False, True,  False],
      [False, False, True,  False, False, False, False],
      [False, False, False, False, False, False, False]]"

definition example_env :: env where
  "example_env = \<lparr> digit_table = example_decimal, nonfinite_cast = 0,
      imread = (\<lambda>f. if f = ''bad.tif'' then Raises else Array example_image),
      library = example_lib \<rparr>"

definition empty_sink :: sink where
  "empty_sink = \<lparr> summary_csv = None, spots_table = [], images_table = [] \<rparr>"

section \<open>Properties of the aggregation\<close>

lemma py_sum_sum_list: "py_sum xs = sum_list xs"
proof -
  have "foldl (+) a xs = a + sum_list xs" for a :: rat
    by (induction xs arbitrary: a) (simp_all add: add.assoc)
  from this [of 0] show ?thesis by (simp add: py_sum_def)
qed

text \<open>
  C4. The aggregator computes total area and total integrated intensity as plain sums
  over the measurement list, and the mean intensity as total integrated intensity
  divided by total area, which is exactly 0 when the total area is 0. Both the summary
  row and the image row that are written carry these three values.
\<close>

theorem aggregator_totals:
  "\<exists>row img.
     written_row (store_measurements_in_sql db meta ms) = Row row \<and>
     written_image (store_measurements_in_sql db meta ms) = img \<and>
     row_total_area row = sum_list (map area_pixels ms) \<and>
     row_integrated_intensity row = sum_list (map integrated_intensity ms) \<and>
     row_mean_intensity row =
       (if sum_list (map area_pixels ms) = 0 then 0
        else sum_list (map integrated_intensity ms) / sum_list (map area_pixels ms)) \<and>
     image_total_area img = row_total_area row \<and>
     image_integrated_intensity img = row_integrated_intensity row \<and>
     image_mean_intensity img = row_mean_intensity row"
  by (cases "summary_csv db")
     (simp_all add: store_measurements_in_sql_def written_row_def written_image_def
        py_sum_sum_list Let_def)

text \<open>The empty spot list: total area 0 and mean intensity 0.\<close>

theorem aggregator_totals_witness:
  "\<exists>row. written_row (store_measurements_in_sql
              \<lparr>summary_csv = None, spots_table = [], images_table = []\<rparr>
              (parse_filename example_decimal ''data/img.tif'') []) = Row row \<and>
         row_total_area row = 0 \<and> row_integrated_intensity row = 0 \<and>
         row_mean_intensity row = 0"
  using aggregator_totals
    [of "\<lparr>summary_csv = None, spots_table = [], images_table = []\<rparr>"
        "parse_filename example_decimal ''data/img.tif''" "[]"]
  by auto

section \<open>Properties of the metadata extraction\<close>

lemma contains_sublist: "contains r s = sublist r s"
  by (induction s) (simp_all add: sublist_Cons_right)

lemma re_search_Some:
  "re_search m s = Some g \<longleftrightarrow>
     (\<exists>k\<le>length s. m (drop k s) = Some g \<and> (\<forall>j<k. m (drop j s) = None))"
proof (induction s)
  case Nil
  then show ?case by simp
next
  case (Cons c cs)
  show ?case
  proof (cases "m (c # cs)")
    case (Some h)
    have "(\<exists>k\<le>length (c # cs). m (drop k (c # cs)) = Some g \<and> (\<forall>j<k. m (drop j (c # cs)) = None))
          \<longleftrightarrow> h = g"
    proof
      assume "\<exists>k\<le>length (c # cs). m (drop k (c # cs)) = Some g \<and> (\<forall>j<k. m (drop j (c # cs)) = None)"
      then obtain k where k: "m (drop k (c # cs)) = Some g" "\<forall>j<k. m (drop j (c # cs)) = None"
        by blast
      have "k = 0"
      proof (rule ccontr)
        assume "k \<noteq> 0"
        then have "m (drop 0 (c # cs)) = None" using k(2) by blast
        with Some show False by simp
      qed
      with k(1) Some show "h = g" by simp
    next
      assume "h = g"
      with Some have "m (drop 0 (c # cs)) = Some g \<and> (\<forall>j<0. m (drop j (c # cs)) = None)" by simp
      then show "\<exists>k\<le>length (c # cs). m (drop k (c # cs)) = Some g \<and> (\<forall>j<k. m (drop j (c # cs)) = None)"
        by blast
    qed
    with Some show ?thesis by simp
  next
    case None
    have "(\<exists>k\<le>length (c # cs). m (drop k (c # cs)) = Some g \<and> (\<forall>j<k. m (drop j (c # cs)) = None))
          \<longleftrightarrow> (\<exists>k\<le>length cs. m (drop k cs) = Some g \<and> (\<forall>j<k. m (drop j cs) = None))"
      (is "?L \<longleftrightarrow> ?R")
    proof
      assume ?L
      then obtain k where k: "k \<le> length (c # cs)" "m (drop k (c # cs)) = Some g"
        "\<forall>j<k. m (drop j (c # cs)) = None" by blast
      from k(2) None obtain k' where k': "k = Suc k'" by (cases k) auto
      have "\<forall>j<k'. m (drop j cs) = None"
      proof (intro allI impI)
        fix j assume "j < k'"
        then have "Suc j < k" using k' by simp
        with k(3) have "m (drop (Suc j) (c # cs)) = None" by blast
        then show "m (drop j cs) = None" by simp
      qed
      with k k' show ?R by auto
    next
      assume ?R
      then obtain k where k: "k \<le> length cs" "m (drop k cs) = Some g"
        "\<forall>j<k. m (drop j cs) = None" by blast
      have "\<forall>j<Suc k. m (drop j (c # cs)) = None"
      proof (intro allI impI)
        fix j assume "j < Suc k"
        then show "m (drop j (c # cs)) = None"
          using None k(3) by (cases j) auto
      qed
      with k show ?L by (intro exI [of _ "Suc k"]) simp
    qed
    with None Cons.IH show ?thesis by simp
  qed
qed

lemma re_search_first_token:
  assumes "\<And>k ds. k \<le> length s \<Longrightarrow> m (drop k s) = Some ds \<longleftrightarrow> token_at decimal lit follow s k ds"
  shows "re_search m s = Some ds \<longleftrightarrow> first_token decimal lit follow s ds"
proof
  assume "re_search m s = Some ds"
  then obtain k where k: "k \<le> length s" "m (drop k s) = Some ds" "\<forall>j<k. m (drop j s) = None"
    unfolding re_search_Some by blast
  have "\<forall>j<k. \<forall>d. \<not> token_at decimal lit follow s j d"
  proof (intro allI impI)
    fix j d assume "j < k"
    then have "m (drop j s) = None" "j \<le> length s" using k by auto
    then show "\<not> token_at decimal lit follow s j d" using assms [of j d] by simp
  qed
  with k assms [of k ds] show "first_token decimal lit follow s ds"
    unfolding first_token_def by blast
next
  assume "first_token decimal lit follow s ds"
  then obtain k where k: "token_at decimal lit follow s k ds" "\<forall>j<k. \<forall>d. \<not> token_at decimal lit follow s j d"
    unfolding first_token_def by blast
  then have kl: "k \<le> length s" by (simp add: token_at_def)
  have "\<forall>j<k. m (drop j s) = None"
  proof (intro allI impI)
    fix j assume j: "j < k"
    show "m (drop j s) = None"
    proof (cases "m (drop j s)")
      case (Some d)
      then have "token_at decimal lit follow s j d" using assms [of j d] j kl by simp
      with k(2) j show ?thesis by blast
    qed simp
  qed
  with k(1) kl assms [of k ds] show "re_search m s = Some ds"
    unfolding re_search_Some by blast
qed

lemma char_lower_slash: "char_lower (CHR ''/'') = CHR ''/''"
  by (simp add: char_lower_def)

lemma lower_append: "lower (a @ b) = lower a @ lower b"
  by (simp add: lower_def)

lemma lower_join_slash: "lower (join_slash xs) = join_slash (map lower xs)"
  by (induction xs rule: join_slash.induct)
     (simp_all add: lower_append, simp_all add: lower_def char_lower_slash)

lemma lower_path_root: "lower (path_root s) = path_root s"
  by (simp add: path_root_def lower_def char_lower_slash)

lemma sublist_sep:
  assumes "c \<notin> set kw"
  shows "sublist kw (a @ c # b) \<longleftrightarrow> sublist kw a \<or> sublist kw b"
proof
  assume "sublist kw (a @ c # b)"
  then consider "sublist kw a" | "sublist kw (c # b)"
    | xs1 xs2 where "kw = xs1 @ xs2" "suffix xs1 a" "prefix xs2 (c # b)"
    unfolding sublist_append by blast
  then show "sublist kw a \<or> sublist kw b"
  proof cases
    case 1
    then show ?thesis by simp
  next
    case 2
    then have "prefix kw (c # b) \<or> sublist kw b" by (simp add: sublist_Cons_right)
    moreover have "prefix kw (c # b) \<Longrightarrow> kw = []"
      using assms by (cases kw) auto
    ultimately show ?thesis by auto
  next
    case 3
    have "xs2 = []" using 3(1,3) assms by (cases xs2) auto
    with 3 show ?thesis by (auto intro: suffix_imp_sublist)
  qed
next
  assume "sublist kw a \<or> sublist kw b"
  then show "sublist kw (a @ c # b)"
    by (metis sublist_Cons_right sublist_append)
qed

lemma sublist_join_slash:
  assumes "kw \<noteq> []" "CHR ''/'' \<notin> set kw"
  shows "sublist kw (join_slash xs) \<longleftrightarrow> (\<exists>x\<in>set xs. sublist kw x)"
proof (induction xs rule: join_slash.induct)
  case 1
  then show ?case using assms by simp
next
  case (2 x)
  then show ?case by simp
next
  case (3 x y ys)
  have "sublist kw (x @ CHR ''/'' # join_slash (y # ys)) \<longleftrightarrow>
        sublist kw x \<or> sublist kw (join_slash (y # ys))"
    using assms(2) by (rule sublist_sep)
  with 3 show ?case by simp
qed

lemma sublist_path_root:
  assumes "kw \<noteq> []" "CHR ''/'' \<notin> set kw"
  shows "sublist kw (path_root s @ r) \<longleftrightarrow> sublist kw r"
proof -
  have one: "sublist kw (CHR ''/'' # t) \<longleftrightarrow> sublist kw t" for t
    using sublist_sep [OF assms(2), of "[]" t] assms(1) by simp
  show ?thesis by (simp add: path_root_def one)
qed

lemma not_sublist_path_root:
  assumes "kw \<noteq> []" "CHR ''/'' \<notin> set kw"
  shows "\<not> sublist kw (path_root s)"
  using sublist_path_root [OF assms, of s "[]"] assms(1) by simp

lemma contains_path_str:
  assumes "kw \<noteq> []" "CHR ''/'' \<notin> set kw" "CHR ''.'' \<notin> set kw"
  shows "contains kw (lower (path_str p)) \<longleftrightarrow> list_ex (contains kw) (map lower (path_parts p))"
proof -
  have dot: "\<not> sublist kw ''.''"
    using assms(1,3) by (cases kw) (auto simp: sublist_Cons_right)
  have parts: "list_ex (contains kw) (map lower (path_parts p)) \<longleftrightarrow>
               (\<exists>x\<in>set (path_tail p). sublist kw (lower x))"
    using not_sublist_path_root [OF assms(1,2), of p]
    by (auto simp: path_parts_def list_ex_iff contains_sublist lower_path_root)
  show ?thesis
  proof (cases "path_root p = [] \<and> path_tail p = []")
    case True
    then have "lower (path_str p) = ''.''"
      by (simp add: path_str_def lower_def char_lower_def)
    with True dot parts show ?thesis by (simp add: contains_sublist)
  next
    case False
    then have "path_str p = path_root p @ join_slash (path_tail p)"
      by (auto simp: path_str_def)
    then have "lower (path_str p) = path_root p @ join_slash (map lower (path_tail p))"
      by (simp add: lower_append lower_join_slash lower_path_root)
    then show ?thesis
      using parts sublist_path_root [OF assms(1,2)] sublist_join_slash [OF assms(1,2)]
      by (simp add: contains_sublist)
  qed
qed

lemma first_keyword_two:
  "first_keyword [a, b] parts =
     (if list_ex (contains a) parts then a else if list_ex (contains b) parts then b else ''unknown'')"
  by (simp add: first_keyword_def)

lemma parse_filename_region:
  "region (parse_filename decimal p) = first_keyword [''meristem'', ''elongation''] (map lower (path_parts p))"
  by (simp add: parse_filename_def Let_def)

lemma parse_filename_genotype:
  "genotype (parse_filename decimal p) = first_keyword [''control'', ''mutant''] (map lower (path_parts p))"
  by (simp add: parse_filename_def Let_def)

lemma parse_filename_filename: "filename (parse_filename decimal p) = path_str p"
  by (simp add: parse_filename_def Let_def)

lemma stored_region:
  "region (fst (store_measurements_in_sql db (parse_filename decimal p) ms)) =
     (if region (parse_filename decimal p) = ''unknown'' then ''elongation''
      else region (parse_filename decimal p))"
proof -
  have "contains ''meristem'' (lower (path_str p)) \<longleftrightarrow>
        list_ex (contains ''meristem'') (map lower (path_parts p))"
    by (rule contains_path_str) simp_all
  then show ?thesis
    by (simp add: store_measurements_in_sql_def Let_def parse_filename_filename
          parse_filename_region parse_filename_genotype first_keyword_two)
qed

lemma stored_genotype:
  "genotype (fst (store_measurements_in_sql db (parse_filename decimal p) ms)) =
     (if genotype (parse_filename decimal p) = ''unknown'' then ''mutant''
      else genotype (parse_filename decimal p))"
proof -
  have "contains ''control'' (lower (path_str p)) \<longleftrightarrow>
        list_ex (contains ''control'') (map lower (path_parts p))"
    by (rule contains_path_str) simp_all
  then show ?thesis
    by (simp add: store_measurements_in_sql_def Let_def parse_filename_filename
          parse_filename_region parse_filename_genotype first_keyword_two)
qed

lemma written_row_fields:
  "\<exists>row. written_row (store_measurements_in_sql db meta ms) = Row row \<and>
     row_region row = region (fst (store_measurements_in_sql db meta ms)) \<and>
     row_genotype row = genotype (fst (store_measurements_in_sql db meta ms))"
  by (cases "summary_csv db")
     (simp_all add: store_measurements_in_sql_def written_row_def Let_def)

text \<open>
  C3 (as amended). Region and genotype are inferred by substring search, after
  lowercasing, across every part of the path, in the fixed order of the keywords, and
  a path with no keyword gives \<open>unknown\<close>. The summary row does not keep \<open>unknown\<close>:
  \<^verbatim>\<open>store_measurements_in_sql\<close> derives the two fields again from the stored path and
  writes \<open>elongation\<close> for an unknown region and \<open>mutant\<close> for an unknown genotype; a
  region or genotype that the parser found is written as it is.
\<close>

theorem region_genotype_inference:
  "region (parse_filename decimal p) =
     (if \<exists>seg\<in>set (path_parts p). sublist ''meristem'' (lower seg) then ''meristem''
      else if \<exists>seg\<in>set (path_parts p). sublist ''elongation'' (lower seg) then ''elongation''
      else ''unknown'') \<and>
   genotype (parse_filename decimal p) =
     (if \<exists>seg\<in>set (path_parts p). sublist ''control'' (lower seg) then ''control''
      else if \<exists>seg\<in>set (path_parts p). sublist ''mutant'' (lower seg) then ''mutant''
      else ''unknown'') \<and>
   (\<exists>row. written_row (store_measurements_in_sql db (parse_filename decimal p) ms) = Row row \<and>
      row_region row =
        (if region (parse_filename decimal p) = ''unknown'' then ''elongation''
         else region (parse_filename decimal p)) \<and>
      row_genotype row =
        (if genotype (parse_filename decimal p) = ''unknown'' then ''mutant''
         else genotype (parse_filename decimal p)))"
proof (intro conjI)
  show "region (parse_filename decimal p) =
     (if \<exists>seg\<in>set (path_parts p). sublist ''meristem'' (lower seg) then ''meristem''
      else if \<exists>seg\<in>set (path_parts p). sublist ''elongation'' (lower seg) then ''elongation''
      else ''unknown'')"
    by (simp add: parse_filename_region parse_filename_genotype first_keyword_two
          list_ex_iff contains_sublist)
  show "genotype (parse_filename decimal p) =
     (if \<exists>seg\<in>set (path_parts p). sublist ''control'' (lower seg) then ''control''
      else if \<exists>seg\<in>set (path_parts p). sublist ''mutant'' (lower seg) then ''mutant''
      else ''unknown'')"
    by (simp add: parse_filename_region parse_filename_genotype first_keyword_two
          list_ex_iff contains_sublist)
  show "\<exists>row. written_row (store_measurements_in_sql db (parse_filename decimal p) ms) = Row row \<and>
      row_region row =
        (if region (parse_filename decimal p) = ''unknown'' then ''elongation''
         else region (parse_filename decimal p)) \<and>
      row_genotype row =
        (if genotype (parse_filename decimal p) = ''unknown'' then ''mutant''
         else genotype (parse_filename decimal p))"
    using written_row_fields [of db "parse_filename decimal p" ms]
    by (simp only: stored_region stored_genotype)
qed

text \<open>
  The path \<open>data/img.tif\<close> names neither a region nor a genotype: the parser answers
  \<open>unknown\<close> twice, and the summary row says \<open>elongation\<close> and \<open>mutant\<close>.
\<close>

theorem unknown_not_preserved_counterexample:
  "region (parse_filename example_decimal ''data/img.tif'') = ''unknown'' \<and>
   genotype (parse_filename example_decimal ''data/img.tif'') = ''unknown'' \<and>
   written_row (store_measurements_in_sql
       \<lparr>summary_csv = None, spots_table = [], images_table = []\<rparr>
       (parse_filename example_decimal ''data/img.tif'') []) =
     Row \<lparr>row_filename = ''data/img.tif'', row_region = ''elongation'',
          row_genotype = ''mutant'', row_seedling = None, row_zslice = None,
          row_total_area = 0, row_integrated_intensity = 0, row_mean_intensity = 0\<rparr>"
  by code_simp

text \<open>
  C8 (as amended). \<^verbatim>\<open>store_measurements_in_sql\<close> assigns the region and the genotype
  of the metadata it is given, from the stored path; the six other fields keep their
  values. For metadata made by \<^verbatim>\<open>parse_filename\<close> the record comes back unchanged
  exactly when neither field was \<open>unknown\<close>.
\<close>

theorem store_metadata_frame:
  "filename (fst (store_measurements_in_sql db meta ms)) = filename meta \<and>
   seedling (fst (store_measurements_in_sql db meta ms)) = seedling meta \<and>
   zslice (fst (store_measurements_in_sql db meta ms)) = zslice meta \<and>
   channel (fst (store_measurements_in_sql db meta ms)) = channel meta \<and>
   magnification (fst (store_measurements_in_sql db meta ms)) = magnification meta \<and>
   fluorophore (fst (store_measurements_in_sql db meta ms)) = fluorophore meta \<and>
   region (fst (store_measurements_in_sql db meta ms)) =
     (if contains ''meristem'' (lower (filename meta)) then ''meristem'' else ''elongation'') \<and>
   genotype (fst (store_measurements_in_sql db meta ms)) =
     (if contains ''control'' (lower (filename meta)) then ''control'' else ''mutant'') \<and>
   (fst (store_measurements_in_sql db (parse_filename decimal p) ms) = parse_filename decimal p \<longleftrightarrow>
      region (parse_filename decimal p) \<noteq> ''unknown'' \<and> genotype (parse_filename decimal p) \<noteq> ''unknown'')"
proof -
  have frame: "fst (store_measurements_in_sql db m ms) =
     m\<lparr>region := region (fst (store_measurements_in_sql db m ms)),
       genotype := genotype (fst (store_measurements_in_sql db m ms))\<rparr>" for m
    by (simp add: store_measurements_in_sql_def Let_def)
  have "fst (store_measurements_in_sql db (parse_filename decimal p) ms) = parse_filename decimal p \<longleftrightarrow>
      region (parse_filename decimal p) \<noteq> ''unknown'' \<and> genotype (parse_filename decimal p) \<noteq> ''unknown''"
    (is "?L \<longleftrightarrow> ?R")
  proof
    assume ?L
    then have "region (fst (store_measurements_in_sql db (parse_filename decimal p) ms)) = region (parse_filename decimal p)"
      "genotype (fst (store_measurements_in_sql db (parse_filename decimal p) ms)) = genotype (parse_filename decimal p)"
      by simp_all
    then show ?R unfolding stored_region stored_genotype by (auto split: if_splits)
  next
    assume ?R
    then show ?L
      by (subst frame) (simp add: stored_region stored_genotype)
  qed
  then show ?thesis
    by (simp add: store_measurements_in_sql_def Let_def)
qed

text \<open>For the path \<open>data/img.tif\<close> the metadata after persistence differs from the parsed one.\<close>

theorem metadata_mutated_counterexample:
  "fst (store_measurements_in_sql
          \<lparr>summary_csv = None, spots_table = [], images_table = []\<rparr>
          (parse_filename example_decimal ''data/img.tif'') []) \<noteq> parse_filename example_decimal ''data/img.tif''"
  by code_simp

lemma first_char_Cons: "first_char (c # cs) = c # take (utf8_len c - 1) cs"
  by (cases "utf8_len c") (simp_all add: first_char_def utf8_len_def Let_def split: if_splits)

lemma first_char_dot: "first_char (CHR ''.'' # r) = ''.''"
  by (simp add: first_char_def utf8_len_def)

lemma digit_run_iff:
  "digit_run decimal r = ds \<longleftrightarrow>
     digit_chars decimal ds r \<and>
     (drop (length (concat ds)) r = [] \<or>
      decimal (first_char (drop (length (concat ds)) r)) = None)"
proof (induction ds arbitrary: r)
  case Nil
  show ?case by (subst digit_run.simps) simp
next
  case (Cons d ds)
  show ?case
  proof (cases "r = [] \<or> decimal (first_char r) = None")
    case True
    then have "digit_run decimal r = []" by (subst digit_run.simps) simp
    with True show ?thesis by auto
  next
    case False
    then have run: "digit_run decimal r =
        first_char r # digit_run decimal (drop (length (first_char r)) r)"
      by (subst digit_run.simps) simp
    show ?thesis
    proof (cases "d = first_char r")
      case True
      with False Cons.IH [of "drop (length d) r"] show ?thesis
        by (simp add: run add.commute)
    next
      case neq: False
      then show ?thesis by (auto simp: run)
    qed
  qed
qed

lemma digit_run_chars:
  "digit_chars decimal (digit_run decimal r) r"
  using digit_run_iff [of decimal r "digit_run decimal r"] by simp

lemma match_lit_digits_token:
  assumes "k \<le> length s"
  shows "match_lit_digits decimal lit (drop k s) = Some ds \<longleftrightarrow> token_at decimal lit [] s k ds"
proof -
  have "match_lit_digits decimal lit (drop k s) = Some ds \<longleftrightarrow>
        prefix lit (drop k s) \<and> ds \<noteq> [] \<and> digit_run decimal (drop (k + length lit) s) = ds"
    by (auto simp: match_lit_digits_def Let_def add.commute)
  then show ?thesis
    using assms by (auto simp: token_at_def digit_run_iff ac_simps)
qed

lemma digit_chars_nth:
  assumes "digit_chars decimal ds r" "j < length ds"
  shows "drop (length (concat (take j ds))) r \<noteq> [] \<and>
         first_char (drop (length (concat (take j ds))) r) = ds ! j \<and>
         decimal (ds ! j) \<noteq> None"
  using assms
proof (induction ds arbitrary: r j)
  case Nil
  then show ?case by simp
next
  case (Cons d ds)
  show ?case
  proof (cases j)
    case 0
    with Cons.prems show ?thesis by auto
  next
    case (Suc i)
    with Cons.prems have "digit_chars decimal ds (drop (length d) r)" "i < length ds"
      by auto
    from Cons.IH [OF this] show ?thesis by (simp add: Suc add.commute)
  qed
qed

lemma no_tif_inside_run:
  assumes "decimal ''.'' = None" "digit_chars decimal ds r" "j < length ds"
  shows "\<not> prefix ''.tif'' (drop (length (concat (take j ds))) r)"
proof
  assume "prefix ''.tif'' (drop (length (concat (take j ds))) r)"
  then obtain t where "drop (length (concat (take j ds))) r = CHR ''.'' # t"
    by (auto simp: prefix_def)
  then have "first_char (drop (length (concat (take j ds))) r) = ''.''"
    by (simp only: first_char_dot)
  with digit_chars_nth [OF assms(2,3)] assms(1) show False by auto
qed

lemma backtrack_tif_below:
  assumes "decimal ''.'' = None" "digit_chars decimal ds r" "k < length ds"
  shows "backtrack_tif k ds r = None"
  using assms(3)
proof (induction k)
  case 0
  then show ?case by simp
next
  case (Suc k)
  from no_tif_inside_run [OF assms(1,2) Suc.prems] Suc show ?case by simp
qed

lemma backtrack_tif_full:
  assumes "decimal ''.'' = None" "digit_chars decimal ds r"
  shows "backtrack_tif (length ds) ds r = Some g \<longleftrightarrow>
         g = ds \<and> ds \<noteq> [] \<and> prefix ''.tif'' (drop (length (concat ds)) r)"
proof (cases "length ds")
  case 0
  then show ?thesis by auto
next
  case (Suc n)
  then have "backtrack_tif n ds r = None"
    using backtrack_tif_below [OF assms, of n] by simp
  moreover have "take (Suc n) ds = ds" using Suc by simp
  ultimately show ?thesis using Suc by auto
qed

lemma match_channel_token:
  assumes "decimal ''.'' = None" "k \<le> length s"
  shows "match_channel decimal (drop k s) = Some ds \<longleftrightarrow> token_at decimal ''c'' ''.tif'' s k ds"
proof -
  let ?r = "drop (k + 1) s"
  have r: "drop 1 (drop k s) = ?r" by (simp add: add.commute)
  have "match_channel decimal (drop k s) = Some ds \<longleftrightarrow>
        prefix ''c'' (drop k s) \<and>
        backtrack_tif (length (digit_run decimal ?r)) (digit_run decimal ?r) ?r = Some ds"
    unfolding match_channel_def r by simp
  also have "\<dots> \<longleftrightarrow> prefix ''c'' (drop k s) \<and> ds = digit_run decimal ?r \<and> ds \<noteq> [] \<and>
        prefix ''.tif'' (drop (length (concat ds)) ?r)"
    using backtrack_tif_full [OF assms(1) digit_run_chars [of decimal ?r], of ds] by auto
  also have "\<dots> \<longleftrightarrow> token_at decimal ''c'' ''.tif'' s k ds"
  proof -
    have "prefix ''.tif'' t \<Longrightarrow> t = [] \<or> decimal (first_char t) = None" for t
      using assms(1) by (auto simp: prefix_def first_char_dot)
    then show ?thesis
      using assms(2) digit_run_iff [of decimal ?r ds]
      by (auto simp: token_at_def ac_simps)
  qed
  finally show ?thesis .
qed

lemma ascii_digits_char:
  "ascii_digits decimal \<Longrightarrow> (of_char c :: nat) < 128 \<Longrightarrow>
   decimal [c] = (if c \<in> set ''0123456789'' then Some (of_char c - 48) else None)"
  by (simp add: ascii_digits_def)

lemma ascii_digits_dot: "ascii_digits decimal \<Longrightarrow> decimal ''.'' = None"
  by (simp add: ascii_digits_char)

lemma ascii_digits_example: "ascii_digits example_decimal"
  by (simp add: ascii_digits_def example_decimal_def)

lemma parse_filename_seedling:
  "seedling (parse_filename decimal p) =
     map_option (int_of_digits decimal)
       (re_search (match_lit_digits decimal ''seedling'') (lower (path_name p)))"
  by (simp add: parse_filename_def Let_def)

lemma parse_filename_zslice:
  "zslice (parse_filename decimal p) =
     map_option (int_of_digits decimal)
       (re_search (match_lit_digits decimal ''_z'') (lower (path_name p)))"
  by (simp add: parse_filename_def Let_def)

lemma parse_filename_channel:
  "channel (parse_filename decimal p) =
     (case re_search (match_channel decimal) (lower (path_name p)) of
        Some g \<Rightarrow> ''c'' @ concat g | None \<Rightarrow> ''unknown'')"
  by (simp add: parse_filename_def Let_def)

lemma search_lit_first_token:
  "re_search (match_lit_digits decimal lit) s = Some ds \<longleftrightarrow> first_token decimal lit [] s ds"
  by (rule re_search_first_token) (rule match_lit_digits_token)

lemma search_channel_first_token:
  "decimal ''.'' = None \<Longrightarrow>
   re_search (match_channel decimal) s = Some ds \<longleftrightarrow> first_token decimal ''c'' ''.tif'' s ds"
  by (rule re_search_first_token) (rule match_channel_token)

lemma map_option_search:
  "map_option f (re_search (match_lit_digits decimal lit) s) = Some n \<longleftrightarrow>
     (\<exists>ds. first_token decimal lit [] s ds \<and> n = f ds)"
  by (auto simp: search_lit_first_token [symmetric])

lemma map_option_search_None:
  "map_option f (re_search (match_lit_digits decimal lit) s) = None \<longleftrightarrow>
     (\<forall>ds. \<not> first_token decimal lit [] s ds)"
  by (simp add: search_lit_first_token [symmetric])

text \<open>The example of the specification, for every table that is right on ASCII.\<close>

lemma parse_filename_example:
  assumes "ascii_digits decimal"
  shows "seedling (parse_filename decimal ''...seedling12_elong_z16c1.tif'') = Some 12"
    and "zslice (parse_filename decimal ''...seedling12_elong_z16c1.tif'') = Some 16"
    and "channel (parse_filename decimal ''...seedling12_elong_z16c1.tif'') = ''c1''"
proof -
  note d = ascii_digits_char [OF assms]
  have name: "lower (path_name ''...seedling12_elong_z16c1.tif'') = ''...seedling12_elong_z16c1.tif''"
    by code_simp
  have r1: "digit_run decimal ''12_elong_z16c1.tif'' = [''1'', ''2'']"
    by (simp add: digit_run_iff first_char_def utf8_len_def d)
  have r2: "digit_run decimal ''16c1.tif'' = [''1'', ''6'']"
    by (simp add: digit_run_iff first_char_def utf8_len_def d)
  have r3: "digit_run decimal ''1.tif'' = [''1'']"
    by (simp add: digit_run_iff first_char_def utf8_len_def d)
  have r4: "digit_run decimal ''.tif'' = []"
    by (simp add: digit_run_iff first_char_def utf8_len_def d)
  show "seedling (parse_filename decimal ''...seedling12_elong_z16c1.tif'') = Some 12"
    unfolding parse_filename_seedling name
    by (simp add: match_lit_digits_def r1 int_of_digits_def d)
  show "zslice (parse_filename decimal ''...seedling12_elong_z16c1.tif'') = Some 16"
    unfolding parse_filename_zslice name
    by (simp add: match_lit_digits_def r2 int_of_digits_def d)
  show "channel (parse_filename decimal ''...seedling12_elong_z16c1.tif'') = ''c1''"
    unfolding parse_filename_channel name
    by (simp add: match_channel_def r3 r4)
qed

text \<open>
  C7 (as amended). The searches work on the lowercased file name, so they do not
  distinguish upper and lower case. The seedling number is the value of the first run
  of decimal digits that immediately follows the token \<open>seedling\<close>, and the z-slice that
  of the first run of digits that immediately follows \<open>_z\<close>; both are absent when there
  is no such run. The channel is \<open>c\<close> with the first run of digits that immediately
  follows a \<open>c\<close> and is immediately followed by the text \<open>.tif\<close>, wherever in the name
  that text stands, and \<open>unknown\<close> when there is none. The file name
  \<open>...seedling12_elong_z16c1.tif\<close> gives seedling 12, z-slice 16 and channel \<open>c1\<close>. This
  holds for every table of decimal digits that is right on the ASCII characters.
\<close>

theorem parse_filename_tokens:
  assumes "ascii_digits decimal"
  shows
  "(seedling (parse_filename decimal p) = Some n \<longleftrightarrow>
      (\<exists>ds. first_token decimal ''seedling'' [] (lower (path_name p)) ds \<and>
            n = int_of_digits decimal ds)) \<and>
   (seedling (parse_filename decimal p) = None \<longleftrightarrow>
      (\<forall>ds. \<not> first_token decimal ''seedling'' [] (lower (path_name p)) ds)) \<and>
   (zslice (parse_filename decimal p) = Some z \<longleftrightarrow>
      (\<exists>ds. first_token decimal ''_z'' [] (lower (path_name p)) ds \<and>
            z = int_of_digits decimal ds)) \<and>
   (zslice (parse_filename decimal p) = None \<longleftrightarrow>
      (\<forall>ds. \<not> first_token decimal ''_z'' [] (lower (path_name p)) ds)) \<and>
   (\<forall>ds. first_token decimal ''c'' ''.tif'' (lower (path_name p)) ds \<longrightarrow>
      channel (parse_filename decimal p) = ''c'' @ concat ds) \<and>
   ((\<forall>ds. \<not> first_token decimal ''c'' ''.tif'' (lower (path_name p)) ds) \<longrightarrow>
      channel (parse_filename decimal p) = ''unknown'') \<and>
   seedling (parse_filename decimal ''...seedling12_elong_z16c1.tif'') = Some 12 \<and>
   zslice (parse_filename decimal ''...seedling12_elong_z16c1.tif'') = Some 16 \<and>
   channel (parse_filename decimal ''...seedling12_elong_z16c1.tif'') = ''c1''"
proof (intro conjI)
  note dot = ascii_digits_dot [OF assms]
  show "seedling (parse_filename decimal ''...seedling12_elong_z16c1.tif'') = Some 12"
    by (rule parse_filename_example [OF assms])
  show "zslice (parse_filename decimal ''...seedling12_elong_z16c1.tif'') = Some 16"
    by (rule parse_filename_example [OF assms])
  show "channel (parse_filename decimal ''...seedling12_elong_z16c1.tif'') = ''c1''"
    by (rule parse_filename_example [OF assms])
  show "\<forall>ds. first_token decimal ''c'' ''.tif'' (lower (path_name p)) ds \<longrightarrow>
      channel (parse_filename decimal p) = ''c'' @ concat ds"
    by (simp add: parse_filename_channel search_channel_first_token [of decimal, OF dot, symmetric])
  show "(\<forall>ds. \<not> first_token decimal ''c'' ''.tif'' (lower (path_name p)) ds) \<longrightarrow>
      channel (parse_filename decimal p) = ''unknown''"
    by (auto simp: parse_filename_channel search_channel_first_token [of decimal, OF dot, symmetric]
        split: option.splits)
qed (simp_all only: parse_filename_seedling parse_filename_zslice map_option_search
       map_option_search_None)

theorem parse_filename_tokens_witness:
  "ascii_digits example_decimal \<and>
   (\<exists>ds. first_token example_decimal ''seedling'' []
           (lower (path_name ''control_elongation_zone/h2b_seedling12_elong_z16c1.tif'')) ds \<and>
         12 = int_of_digits example_decimal ds) \<and>
   (\<exists>ds. first_token example_decimal ''c'' ''.tif''
           (lower (path_name ''control_elongation_zone/h2b_seedling12_elong_z16c1.tif'')) ds) \<and>
   channel (parse_filename example_decimal
              ''control_elongation_zone/h2b_seedling12_elong_z16c1.tif'') = ''c1'' \<and>
   seedling (parse_filename example_decimal
               (''x/seedling'' @ [CHR 0xD9, CHR 0xA3] @ ''.tif'')) = Some 3"
proof -
  let ?p = "''control_elongation_zone/h2b_seedling12_elong_z16c1.tif''"
  have s: "seedling (parse_filename example_decimal ?p) = Some 12" by code_simp
  have c: "channel (parse_filename example_decimal ?p) = ''c1''" by code_simp
  have u: "seedling (parse_filename example_decimal
               (''x/seedling'' @ [CHR 0xD9, CHR 0xA3] @ ''.tif'')) = Some 3"
    by code_simp
  note t = parse_filename_tokens [OF ascii_digits_example, of ?p 12 0]
  from t s have a: "\<exists>ds. first_token example_decimal ''seedling'' [] (lower (path_name ?p)) ds \<and>
         12 = int_of_digits example_decimal ds"
    by blast
  have b: "\<exists>ds. first_token example_decimal ''c'' ''.tif'' (lower (path_name ?p)) ds"
  proof (rule ccontr)
    assume "\<not> ?thesis"
    with t have "channel (parse_filename example_decimal ?p) = ''unknown''" by blast
    with c show False by simp
  qed
  from a b c u ascii_digits_example show ?thesis by blast
qed

text \<open>
  In \<open>x_c2.png\<close> the digit 2 immediately follows a \<open>c\<close> and immediately precedes the file
  extension, and the channel is \<open>unknown\<close>. In \<open>a_c5.tif_c7.tif\<close> it is the digit 7 that
  precedes the file extension, not the digit 5, and the channel is \<open>c5\<close>. The name
  \<open>IMG_Seedling03.tif\<close> does not contain the token \<open>seedling\<close>, and the seedling number
  is 3.
\<close>

theorem channel_extension_counterexample:
  "before_extension example_decimal ''x_c2.png'' [''2''] \<and>
   channel (parse_filename example_decimal ''x_c2.png'') = ''unknown'' \<and>
   before_extension example_decimal ''a_c5.tif_c7.tif'' [''7''] \<and>
   \<not> before_extension example_decimal ''a_c5.tif_c7.tif'' [''5''] \<and>
   channel (parse_filename example_decimal ''a_c5.tif_c7.tif'') = ''c5'' \<and>
   \<not> sublist ''seedling'' ''IMG_Seedling03.tif'' \<and>
   seedling (parse_filename example_decimal ''IMG_Seedling03.tif'') = Some 3"
  by code_simp

section \<open>Properties of connected components\<close>

lemma filter_length_mono:
  "(\<And>x. x \<in> set xs \<Longrightarrow> P x \<Longrightarrow> E x) \<Longrightarrow> length (filter P xs) \<le> length (filter E xs)"
  by (induction xs) auto

lemma filter_length_le_same:
  assumes "\<And>x. x \<in> set xs \<Longrightarrow> P x \<Longrightarrow> E x"
    and "length (filter E xs) \<le> length (filter P xs)"
    and "x \<in> set xs" "E x"
  shows "P x"
  using assms
proof (induction xs)
  case Nil
  then show ?case by simp
next
  case (Cons a xs)
  have mono: "length (filter P xs) \<le> length (filter E xs)"
    by (rule filter_length_mono) (simp add: Cons.prems(1))
  have imp: "P a \<Longrightarrow> E a" by (simp add: Cons.prems(1))
  show ?case
  proof (cases "E a \<and> \<not> P a")
    case True
    with Cons.prems(2) mono show ?thesis by simp
  next
    case False
    with imp Cons.prems(2) have le: "length (filter E xs) \<le> length (filter P xs)"
      by (auto split: if_splits)
    show ?thesis
    proof (cases "x = a")
      case True
      with False Cons.prems(4) show ?thesis by simp
    next
      case neq: False
      with Cons.prems(3) have "x \<in> set xs" by simp
      with Cons.IH [OF _ le] Cons.prems(1,4) show ?thesis by simp
    qed
  qed
qed

lemma filter_mem_self: "filter (\<lambda>q. q \<in> set (filter E ps)) ps = filter E ps"
  by (rule filter_cong) auto

lemma expand_self: "filter (\<lambda>q. q \<in> set (expand adj ps C)) ps = expand adj ps C"
  unfolding expand_def by (rule filter_mem_self)

lemma closure_props:
  assumes "filter (\<lambda>q. q \<in> set C) ps = C"
  shows "filter (\<lambda>q. q \<in> set (closure adj ps C)) ps = closure adj ps C
     \<and> set C \<subseteq> set (closure adj ps C)
     \<and> (\<forall>a\<in>set (closure adj ps C). \<forall>b\<in>set ps. adj a b \<longrightarrow> b \<in> set (closure adj ps C))
     \<and> (\<forall>q\<in>set (closure adj ps C). \<exists>c\<in>set C. (c, q) \<in> (link adj ps)\<^sup>*)"
  using assms
proof (induction adj ps C rule: closure.induct)
  case (1 adj ps C)
  have sub: "set C \<subseteq> set ps"
    using "1.prems" by (metis filter_is_subset)
  show ?case
  proof (cases "length (expand adj ps C) \<le> length C")
    case True
    then have res: "closure adj ps C = C" by (subst closure.simps) simp
    have closed: "b \<in> set C" if "a \<in> set C" "b \<in> set ps" "adj a b" for a b
    proof -
      have le: "length (filter (\<lambda>q. q \<in> set C \<or> list_ex (\<lambda>p. adj p q) C) ps)
                \<le> length (filter (\<lambda>q. q \<in> set C) ps)"
        using True "1.prems" by (simp add: expand_def)
      have "b \<in> set C \<or> list_ex (\<lambda>p. adj p b) C"
        using that by (auto simp: list_ex_iff)
      with filter_length_le_same [OF _ le that(2)] show ?thesis by blast
    qed
    show ?thesis
      unfolding res using "1.prems" closed by auto
  next
    case False
    then have res: "closure adj ps C = closure adj ps (expand adj ps C)"
      by (subst closure.simps) simp
    note IH = "1.IH" [OF False expand_self]
    have CE: "set C \<subseteq> set (expand adj ps C)"
    proof
      fix q assume "q \<in> set C"
      with sub show "q \<in> set (expand adj ps C)" by (auto simp: expand_def)
    qed
    have orig: "\<exists>c\<in>set C. (c, q) \<in> (link adj ps)\<^sup>*" if "q \<in> set (expand adj ps C)" for q
    proof (cases "q \<in> set C")
      case True
      then show ?thesis by blast
    next
      case False
      with that obtain p where p: "p \<in> set C" "adj p q" "q \<in> set ps"
        by (auto simp: expand_def list_ex_iff)
      with sub have "(p, q) \<in> link adj ps" by (auto simp: link_def)
      with p(1) show ?thesis by blast
    qed
    have origin: "\<exists>c\<in>set C. (c, q) \<in> (link adj ps)\<^sup>*"
      if "q \<in> set (closure adj ps (expand adj ps C))" for q
    proof -
      from IH that obtain e where e: "e \<in> set (expand adj ps C)" "(e, q) \<in> (link adj ps)\<^sup>*"
        by blast
      from orig [OF e(1)] obtain c where "c \<in> set C" "(c, e) \<in> (link adj ps)\<^sup>*" by blast
      with e(2) show ?thesis by (meson rtrancl_trans)
    qed
    have i1: "filter (\<lambda>q. q \<in> set (closure adj ps (expand adj ps C))) ps
              = closure adj ps (expand adj ps C)"
      using IH by blast
    have i2: "set C \<subseteq> set (closure adj ps (expand adj ps C))"
      using IH CE by blast
    have i3: "\<forall>a\<in>set (closure adj ps (expand adj ps C)). \<forall>b\<in>set ps.
                adj a b \<longrightarrow> b \<in> set (closure adj ps (expand adj ps C))"
      using IH by blast
    show ?thesis
      unfolding res using i1 i2 i3 origin by blast
  qed
qed

lemma connected_refl: "connected adj ps a a"
  by (simp add: connected_def)

lemma connected_trans:
  "connected adj ps a b \<Longrightarrow> connected adj ps b c \<Longrightarrow> connected adj ps a c"
  by (auto simp: connected_def)

lemma connected_step:
  "connected adj ps a b \<Longrightarrow> b \<in> set ps \<Longrightarrow> c \<in> set ps \<Longrightarrow> adj b c \<Longrightarrow> connected adj ps a c"
  by (auto simp: connected_def link_def intro: rtrancl_into_rtrancl)

lemma connected_sym:
  assumes "symp adj" "connected adj ps a b"
  shows "connected adj ps b a"
proof -
  have "sym (link adj ps)"
    using assms(1) by (auto simp: sym_def link_def symp_def)
  then have "sym ((link adj ps)\<^sup>*)" by (rule sym_rtrancl)
  from symD [OF this] assms(2) show ?thesis unfolding connected_def by blast
qed

lemma connected_mem:
  assumes "connected adj ps a b" "a \<in> set ps"
  shows "b \<in> set ps"
  using assms unfolding connected_def
  by (induction rule: rtrancl_induct) (auto simp: link_def)

lemma component_eq:
  assumes "p \<in> set ps"
  shows "component adj ps p = filter (connected adj ps p) ps"
proof -
  let ?C0 = "filter (\<lambda>q. q = p) ps"
  let ?R = "closure adj ps ?C0"
  have props: "filter (\<lambda>q. q \<in> set ?R) ps = ?R" "set ?C0 \<subseteq> set ?R"
    "\<forall>a\<in>set ?R. \<forall>b\<in>set ps. adj a b \<longrightarrow> b \<in> set ?R"
    "\<forall>q\<in>set ?R. \<exists>c\<in>set ?C0. (c, q) \<in> (link adj ps)\<^sup>*"
    using closure_props [where C = ?C0 and ps = ps and adj = adj, OF filter_mem_self]
    by blast+
  have pR: "p \<in> set ?R" using props(2) assms by auto
  have "q \<in> set ?R" if "connected adj ps p q" for q
    using that unfolding connected_def
  proof (induction rule: rtrancl_induct)
    case base
    then show ?case by (rule pR)
  next
    case (step a b)
    then show ?case using props(3) by (auto simp: link_def)
  qed
  moreover have "connected adj ps p q" if "q \<in> set ?R" for q
    using props(4) that by (auto simp: connected_def)
  ultimately have "filter (\<lambda>q. q \<in> set ?R) ps = filter (connected adj ps p) ps"
    by (intro filter_cong) auto
  with props(1) show ?thesis by (simp add: component_def)
qed

lemma connected_filter:
  assumes inv: "\<And>a b. (a, b) \<in> link adj ps \<Longrightarrow> keep a = keep b" and p: "keep p"
  shows "connected adj (filter keep ps) p q \<longleftrightarrow> connected adj ps p q"
proof
  assume "connected adj (filter keep ps) p q"
  moreover have "link adj (filter keep ps) \<subseteq> link adj ps" by (auto simp: link_def)
  ultimately show "connected adj ps p q"
    unfolding connected_def using rtrancl_mono by blast
next
  assume "connected adj ps p q"
  then have "connected adj (filter keep ps) p q \<and> keep q"
    unfolding connected_def
  proof (induction rule: rtrancl_induct)
    case base
    then show ?case using p by simp
  next
    case (step a b)
    then have "keep b" using inv by blast
    with step have "(a, b) \<in> link adj (filter keep ps)" by (auto simp: link_def)
    with step \<open>keep b\<close> show ?case by (auto intro: rtrancl_into_rtrancl)
  qed
  then show "connected adj (filter keep ps) p q" ..
qed

lemma connected_keep:
  assumes inv: "\<And>a b. (a, b) \<in> link adj ps \<Longrightarrow> keep a = keep b"
    and "connected adj ps p q"
  shows "keep p = keep q"
  using assms(2) unfolding connected_def
  by (induction rule: rtrancl_induct) (use inv in auto)

lemma connected_mono:
  assumes "\<And>a b. adj a b \<Longrightarrow> adj' a b" "connected adj ps p q"
  shows "connected adj' ps p q"
proof -
  have "link adj ps \<subseteq> link adj' ps" using assms(1) by (auto simp: link_def)
  with assms(2) show ?thesis unfolding connected_def using rtrancl_mono by blast
qed

lemma adj4_sym: "symp adj4"
  by (auto simp: symp_def adj4_def)

lemma adj8_sym: "symp adj8"
  by (auto simp: symp_def adj8_def)

lemma adj4_adj8: "adj4 a b \<Longrightarrow> adj8 a b"
  by (cases a; cases b) (auto simp: adj4_def adj8_def)

lemma link_connected_iff:
  assumes "symp adj" "(a, b) \<in> link adj ps"
  shows "connected adj ps x a \<longleftrightarrow> connected adj ps x b"
proof
  assume "connected adj ps x a"
  with assms(2) show "connected adj ps x b"
    by (auto simp: connected_def intro: rtrancl_into_rtrancl)
next
  assume xb: "connected adj ps x b"
  from assms(2) have "connected adj ps a b" by (auto simp: connected_def)
  then have "connected adj ps b a" using assms(1) by (rule connected_sym [rotated])
  with xb show "connected adj ps x a" by (rule connected_trans)
qed

text \<open>One step of \<open>components\<close>, with the component and the rest written by connectivity.\<close>

lemma components_rest:
  "filter (\<lambda>q. q \<notin> set (component adj (x # xs) x)) xs
     = filter (\<lambda>q. \<not> connected adj (x # xs) x q) (x # xs)"
proof -
  have "filter (\<lambda>q. q \<notin> set (component adj (x # xs) x)) xs
        = filter (\<lambda>q. \<not> connected adj (x # xs) x q) xs"
    by (rule filter_cong) (auto simp: component_eq)
  then show ?thesis by (simp add: connected_refl)
qed

lemma components_Cons:
  "components adj (x # xs) =
     filter (connected adj (x # xs) x) (x # xs) #
     components adj (filter (\<lambda>q. \<not> connected adj (x # xs) x q) (x # xs))"
proof -
  have "component adj (x # xs) x = filter (connected adj (x # xs) x) (x # xs)"
    by (rule component_eq) simp
  then show ?thesis
    using components_rest [of adj x xs] by (simp add: components.simps(2) del: filter.simps)
qed

lemma rest_connected:
  assumes "symp adj" "\<not> connected adj ps x p"
  shows "connected adj (filter (\<lambda>q. \<not> connected adj ps x q) ps) p q \<longleftrightarrow> connected adj ps p q"
  by (rule connected_filter) (use assms link_connected_iff in auto)

lemma rest_length: "length (filter (\<lambda>q. \<not> connected adj (x # xs) x q) (x # xs)) < length (x # xs)"
  by (simp add: connected_refl less_Suc_eq_le)

lemma label_from_components:
  assumes "symp adj"
  shows "p \<in> set ps \<Longrightarrow> k \<le> label_from k (components adj ps) p"
    and "p \<in> set ps \<Longrightarrow> q \<in> set ps \<Longrightarrow>
          (label_from k (components adj ps) p = label_from k (components adj ps) q
             \<longleftrightarrow> connected adj ps p q)"
proof (induction "length ps" arbitrary: ps k p q rule: less_induct)
  case less
  {
    case 1
    then obtain x xs where ps: "ps = x # xs" by (cases ps) auto
    let ?rest = "filter (\<lambda>q. \<not> connected adj ps x q) ps"
    have len: "length ?rest < length ps" unfolding ps by (rule rest_length)
    show ?case
    proof (cases "connected adj ps x p")
      case True
      with 1 show ?thesis by (simp add: ps components_Cons del: filter.simps)
    next
      case False
      with 1 have "p \<in> set ?rest" by simp
      from less(1) [OF len this, of "Suc k"] False 1 show ?thesis
        by (simp add: ps components_Cons del: filter.simps)
    qed
  next
    case 2
    then obtain x xs where ps: "ps = x # xs" by (cases ps) auto
    let ?rest = "filter (\<lambda>q. \<not> connected adj ps x q) ps"
    have len: "length ?rest < length ps" unfolding ps by (rule rest_length)
    have lab: "label_from k (components adj ps) r =
        (if connected adj ps x r then k else label_from (Suc k) (components adj ?rest) r)"
      if "r \<in> set ps" for r
      using that by (simp add: ps components_Cons del: filter.simps)
    have above: "Suc k \<le> label_from (Suc k) (components adj ?rest) r"
      if "r \<in> set ps" "\<not> connected adj ps x r" for r
      using less(1) [OF len, of r "Suc k"] that by simp
    show ?case
    proof (cases "connected adj ps x p")
      case xp: True
      show ?thesis
      proof (cases "connected adj ps x q")
        case True
        have "connected adj ps p x" using assms xp by (rule connected_sym)
        from this True have "connected adj ps p q" by (rule connected_trans)
        with xp True 2 show ?thesis by (simp add: lab)
      next
        case False
        have "\<not> connected adj ps p q"
          using False xp connected_trans by blast
        with xp False 2 above [of q] show ?thesis by (simp add: lab)
      qed
    next
      case xp: False
      show ?thesis
      proof (cases "connected adj ps x q")
        case True
        have "\<not> connected adj ps p q"
        proof
          assume "connected adj ps p q"
          then have "connected adj ps q p" using assms by (rule connected_sym [rotated])
          with True xp connected_trans show False by blast
        qed
        with xp True 2 above [of p] show ?thesis by (simp add: lab)
      next
        case False
        from xp False 2 have "p \<in> set ?rest" "q \<in> set ?rest" by simp_all
        from less(2) [OF len this, of "Suc k"] rest_connected [OF assms xp, of q]
        show ?thesis using xp False 2 by (simp add: lab)
      qed
    qed
  }
qed

lemma components_Nil_iff: "components adj ps = [] \<longleftrightarrow> ps = []"
  by (cases ps) (simp_all add: components.simps(1) components_Cons del: filter.simps)

lemma label_from_upper:
  assumes "symp adj"
  shows "label_from k (components adj ps) p < Suc (k + length (components adj ps))"
    and "p \<in> set ps \<Longrightarrow> label_from k (components adj ps) p < k + length (components adj ps)"
proof (induction "length ps" arbitrary: ps k rule: less_induct)
  case less
  {
    case 1
    show ?case
    proof (cases ps)
      case Nil
      then show ?thesis by (simp add: components.simps(1))
    next
      case (Cons x xs)
      let ?rest = "filter (\<lambda>q. \<not> connected adj ps x q) ps"
      have len: "length ?rest < length ps" unfolding Cons by (rule rest_length)
      from less(1) [OF len, of "Suc k"] show ?thesis
        by (simp add: Cons components_Cons del: filter.simps)
    qed
  next
    case 2
    then obtain x xs where ps: "ps = x # xs" by (cases ps) auto
    let ?rest = "filter (\<lambda>q. \<not> connected adj ps x q) ps"
    have len: "length ?rest < length ps" unfolding ps by (rule rest_length)
    show ?case
    proof (cases "connected adj ps x p")
      case True
      with 2 show ?thesis by (simp add: ps components_Cons component_eq del: filter.simps)
    next
      case False
      with 2 have "p \<in> set ?rest" by simp
      from less(2) [OF len this, of "Suc k"] False 2 show ?thesis
        by (simp add: ps components_Cons del: filter.simps)
    qed
  }
qed

lemma label_from_onto:
  assumes "symp adj"
  shows "i < length (components adj ps) \<Longrightarrow>
         \<exists>p\<in>set ps. label_from k (components adj ps) p = k + i"
proof (induction "length ps" arbitrary: ps k i rule: less_induct)
  case less
  from less.prems obtain x xs where ps: "ps = x # xs"
    by (cases ps) (auto simp: components.simps(1))
  let ?rest = "filter (\<lambda>q. \<not> connected adj ps x q) ps"
  have len: "length ?rest < length ps" unfolding ps by (rule rest_length)
  show ?case
  proof (cases i)
    case 0
    have "label_from k (components adj ps) x = k"
      by (simp add: ps components_Cons connected_refl del: filter.simps)
    with 0 show ?thesis by (auto simp: ps)
  next
    case (Suc j)
    with less.prems have "j < length (components adj ?rest)"
      by (simp add: ps components_Cons del: filter.simps)
    from less.hyps [OF len this, of "Suc k"]
    obtain p where p: "p \<in> set ?rest" "label_from (Suc k) (components adj ?rest) p = Suc k + j"
      by blast
    then have "p \<in> set ps" "\<not> connected adj ps x p" by simp_all
    with p(2) have "label_from k (components adj ps) p = k + i"
      by (simp add: ps components_Cons Suc del: filter.simps)
    with \<open>p \<in> set ps\<close> show ?thesis by blast
  qed
qed

section \<open>Properties of grids and label images\<close>

lemma length_grid_map: "length (grid_map f g) = length g"
  by (simp add: grid_map_def)

lemma nth_grid_map:
  "i < length g \<Longrightarrow> grid_map f g ! i = map (\<lambda>j. f (i, j) (g ! i ! j)) [0..<length (g ! i)]"
  by (simp add: grid_map_def)

lemma row_lengths_grid_map: "map length (grid_map f g) = map length g"
  by (rule nth_equalityI) (simp_all add: length_grid_map nth_grid_map)

lemma all_pixels_cong:
  assumes "map length g = map length h"
  shows "all_pixels g = all_pixels h"
proof -
  have len: "length g = length h" using assms by (metis length_map)
  have "length (g ! i) = length (h ! i)" if "i < length g" for i
    using assms that len by (metis nth_map)
  then show ?thesis
    unfolding all_pixels_def len [symmetric]
    by (intro arg_cong [where f = concat] map_cong) auto
qed

lemma all_pixels_grid_map: "all_pixels (grid_map f g) = all_pixels g"
  by (rule all_pixels_cong) (rule row_lengths_grid_map)

lemma in_all_pixels:
  "p \<in> set (all_pixels g) \<longleftrightarrow> fst p < length g \<and> snd p < length (g ! fst p)"
  by (cases p) (force simp: all_pixels_def)

lemma px_grid_map:
  "p \<in> set (all_pixels g) \<Longrightarrow> px (grid_map f g) p = f p (px g p)"
  by (cases p) (simp add: in_all_pixels px_def nth_grid_map)

lemma pixels_where_grid_map:
  "pixels_where P (grid_map f g) = filter (\<lambda>p. P (f p (px g p))) (all_pixels g)"
  unfolding pixels_where_def all_pixels_grid_map
  by (rule filter_cong) (simp_all add: px_grid_map)

lemma on_border_grid_map:
  "p \<in> set (all_pixels g) \<Longrightarrow> on_border (grid_map f g) p = on_border g p"
  by (simp add: on_border_def in_all_pixels length_grid_map nth_grid_map)

lemma concat_px: "concat g = map (px g) (all_pixels g)"
proof -
  have "map (px g) (all_pixels g) =
        concat (map (\<lambda>i. map (\<lambda>j. g ! i ! j) [0..<length (g ! i)]) [0..<length g])"
    by (simp add: all_pixels_def map_concat comp_def px_def)
  also have "\<dots> = concat (map (\<lambda>i. g ! i) [0..<length g])"
    by (simp add: map_nth)
  also have "\<dots> = concat g" by (simp add: map_nth)
  finally show ?thesis by simp
qed

lemma count_list_map: "count_list (map f xs) l = length (filter (\<lambda>x. f x = l) xs)"
  by (induction xs) auto

lemma count_concat: "count_list (concat g) l = length (pixels_where (\<lambda>v. v = l) g)"
  by (simp add: concat_px count_list_map pixels_where_def)

lemma fold_max_ge: "x \<in> set xs \<Longrightarrow> x \<le> fold max xs (a::nat)"
proof -
  assume "x \<in> set xs"
  then have "x \<le> Max (set (a # xs))" by simp
  then show ?thesis by (simp only: Max.set_eq_fold)
qed

lemma bincount_nth:
  assumes "l \<in> set xs"
  shows "bincount xs ! l = count_list xs l"
proof -
  have "xs \<noteq> []" using assms by auto
  moreover have "l < Suc (fold max xs 0)" using fold_max_ge [OF assms, of 0] by simp
  ultimately show ?thesis
    unfolding bincount_def by (simp del: upt_Suc)
qed

lemma px_in_concat: "p \<in> set (all_pixels g) \<Longrightarrow> px g p \<in> set (concat g)"
  by (simp add: concat_px)

subsection \<open>The label image\<close>

lemma fg_mem: "p \<in> set (pixels_where id m) \<longleftrightarrow> p \<in> set (all_pixels m) \<and> px m p"
  by (simp add: pixels_where_def)

lemma all_pixels_label_image: "all_pixels (label_image adj m) = all_pixels m"
  by (simp add: label_image_def all_pixels_grid_map)

lemma px_label_image:
  "p \<in> set (all_pixels m) \<Longrightarrow>
   px (label_image adj m) p =
     (if px m p then label_from 1 (components adj (pixels_where id m)) p else 0)"
  by (simp add: label_image_def px_grid_map)

lemma label_image_pos:
  assumes "symp adj" "p \<in> set (pixels_where id m)"
  shows "1 \<le> px (label_image adj m) p"
  using assms label_from_components(1) [OF assms, of 1]
  by (simp add: fg_mem px_label_image)

lemma label_image_eq_iff:
  assumes "symp adj" "p \<in> set (pixels_where id m)" "q \<in> set (all_pixels m)"
  shows "px (label_image adj m) q = px (label_image adj m) p \<longleftrightarrow>
         q \<in> set (pixels_where id m) \<and> connected adj (pixels_where id m) p q"
proof (cases "px m q")
  case True
  with assms(3) have q: "q \<in> set (pixels_where id m)" by (simp add: fg_mem)
  from label_from_components(2) [OF assms(1) assms(2) q, of 1] assms q show ?thesis
    by (auto simp: fg_mem px_label_image)
next
  case False
  with assms(3) have "px (label_image adj m) q = 0" by (simp add: px_label_image)
  with label_image_pos [OF assms(1,2)] False show ?thesis by (simp add: fg_mem)
qed

text \<open>The pixels that carry the label of a foreground pixel are its connected component.\<close>

lemma region_of_pixel:
  assumes "symp adj" "p \<in> set (pixels_where id m)"
  shows "pixels_where (\<lambda>v. v = px (label_image adj m) p) (label_image adj m)
         = filter (\<lambda>q. q \<in> set (pixels_where id m) \<and> connected adj (pixels_where id m) p q)
             (all_pixels m)"
  unfolding pixels_where_def [of "\<lambda>v. v = px (label_image adj m) p"] all_pixels_label_image
  by (rule filter_cong) (simp_all add: label_image_eq_iff [OF assms])

text \<open>Every pixel with a positive label is a foreground pixel.\<close>

lemma label_pos_fg:
  assumes "p \<in> set (all_pixels m)" "0 < px (label_image adj m) p"
  shows "p \<in> set (pixels_where id m)"
  using assms by (auto simp: fg_mem px_label_image split: if_splits)

subsection \<open>Removal of small objects and of objects on the border\<close>

lemma all_pixels_remove_small: "all_pixels (remove_small_objects m k) = all_pixels m"
  by (simp add: remove_small_objects_def Let_def all_pixels_grid_map)

lemma fg_remove_small:
  "pixels_where id (remove_small_objects m k) =
     filter (\<lambda>q. k \<le> int (length (filter (\<lambda>r. r \<in> set (pixels_where id m) \<and>
                                   connected adj4 (pixels_where id m) q r) (all_pixels m))))
       (pixels_where id m)"
proof (cases "k = 0")
  case True
  then show ?thesis by (simp add: remove_small_objects_def)
next
  case False
  let ?ccs = "label_image adj4 m"
  have size: "bincount (concat ?ccs) ! px ?ccs q =
      length (filter (\<lambda>r. r \<in> set (pixels_where id m) \<and>
                connected adj4 (pixels_where id m) q r) (all_pixels m))"
    if "q \<in> set (pixels_where id m)" for q
  proof -
    have "q \<in> set (all_pixels ?ccs)" using that by (simp add: fg_mem all_pixels_label_image)
    then have "bincount (concat ?ccs) ! px ?ccs q = count_list (concat ?ccs) (px ?ccs q)"
      by (intro bincount_nth px_in_concat)
    then show ?thesis
      by (simp only: count_concat region_of_pixel [OF adj4_sym that])
  qed
  have "pixels_where id (remove_small_objects m k) =
        filter (\<lambda>q. px m q \<and> \<not> int (bincount (concat ?ccs) ! px ?ccs q) < k) (all_pixels m)"
    using False unfolding remove_small_objects_def Let_def
    by (simp only: if_False pixels_where_grid_map) (rule filter_cong, auto)
  also have "\<dots> = filter (\<lambda>q. \<not> int (bincount (concat ?ccs) ! px ?ccs q) < k)
                     (pixels_where id m)"
    by (simp add: pixels_where_def conj_commute)
  also have "\<dots> = filter (\<lambda>q. k \<le> int (length (filter (\<lambda>r. r \<in> set (pixels_where id m) \<and>
                                   connected adj4 (pixels_where id m) q r) (all_pixels m))))
                     (pixels_where id m)"
    by (rule filter_cong) (simp_all add: size not_less)
  finally show ?thesis .
qed

lemma clear_border_Inr:
  assumes "clear_border m = Inr out"
  shows "all_pixels out = all_pixels m"
    and "map length out = map length m"
    and "pixels_where id out =
           filter (\<lambda>q. px (label_image adj8 m) q \<notin>
                         px (label_image adj8 m) ` {b \<in> set (all_pixels m). on_border m b})
             (pixels_where id m)"
    and "p \<in> set (all_pixels m) \<Longrightarrow> on_border out p = on_border m p"
proof -
  let ?lab = "label_image adj8 m"
  let ?bl = "map (px ?lab) (filter (on_border m) (all_pixels m))"
  from assms have ne: "\<not> (m = [] \<or> hd m = [])"
    by (cases "m = [] \<or> hd m = []") (simp_all add: clear_border_def)
  have "clear_border m = Inr (grid_map (\<lambda>p v. if px ?lab p \<in> set ?bl then False else v) m)"
    unfolding clear_border_def Let_def by (rule if_not_P) (rule ne)
  with assms have "Inr (grid_map (\<lambda>p v. if px ?lab p \<in> set ?bl then False else v) m)
      = (Inr out :: error + bool grid)"
    by (simp only:)
  then have out: "out = grid_map (\<lambda>p v. if px ?lab p \<in> set ?bl then False else v) m"
    by (simp only: sum.inject)
  show "all_pixels out = all_pixels m" by (simp add: out all_pixels_grid_map)
  show "map length out = map length m" by (simp add: out row_lengths_grid_map)
  have bl: "set ?bl = px ?lab ` {b \<in> set (all_pixels m). on_border m b}" by auto
  have "pixels_where id out = filter (\<lambda>q. px m q \<and> px ?lab q \<notin> set ?bl) (all_pixels m)"
    unfolding out pixels_where_grid_map by (rule filter_cong) auto
  also have "\<dots> = filter (\<lambda>q. px ?lab q \<notin> set ?bl) (pixels_where id m)"
    by (simp add: pixels_where_def conj_commute)
  finally show "pixels_where id out =
           filter (\<lambda>q. px ?lab q \<notin> px ?lab ` {b \<in> set (all_pixels m). on_border m b})
             (pixels_where id m)"
    by (simp only: bl)
  show "on_border out p = on_border m p" if "p \<in> set (all_pixels m)"
    using that by (simp add: out on_border_grid_map)
qed

lemma region_off_border:
  assumes "clear_border m = Inr out" "p \<in> set (pixels_where id out)"
  shows "\<not> on_border out p"
proof
  assume b: "on_border out p"
  note cb = clear_border_Inr [OF assms(1)]
  from assms(2) have p: "p \<in> set (pixels_where id m)"
    "px (label_image adj8 m) p \<notin>
       px (label_image adj8 m) ` {b \<in> set (all_pixels m). on_border m b}"
    unfolding cb(3) by simp_all
  from p(1) have pa: "p \<in> set (all_pixels m)" by (simp add: fg_mem)
  with b cb(4) have "on_border m p" by simp
  with pa p(2) show False by blast
qed

lemma clear_border_connected:
  assumes "clear_border m = Inr out" "q \<in> set (pixels_where id out)"
  shows "connected adj8 (pixels_where id out) q r \<longleftrightarrow> connected adj8 (pixels_where id m) q r"
proof -
  let ?lab = "label_image adj8 m"
  let ?keep = "\<lambda>q. px ?lab q \<notin> px ?lab ` {b \<in> set (all_pixels m). on_border m b}"
  note cb = clear_border_Inr [OF assms(1)]
  have inv: "?keep a = ?keep b" if "(a, b) \<in> link adj8 (pixels_where id m)" for a b
  proof -
    from that have ab: "a \<in> set (pixels_where id m)" "b \<in> set (pixels_where id m)"
      "connected adj8 (pixels_where id m) a b"
      by (auto simp: link_def connected_def)
    then have "b \<in> set (all_pixels m)" by (simp add: fg_mem)
    with label_image_eq_iff [OF adj8_sym ab(1) this] ab
    have "px ?lab b = px ?lab a" by simp
    then show ?thesis by simp
  qed
  from assms(2) have "?keep q" unfolding cb(3) by simp
  from connected_filter [of adj8 "pixels_where id m" ?keep, OF inv this]
  show ?thesis unfolding cb(3) by blast
qed

lemma remove_small_connected:
  assumes "q \<in> set (pixels_where id (remove_small_objects m k))"
  shows "connected adj4 (pixels_where id (remove_small_objects m k)) q r
         \<longleftrightarrow> connected adj4 (pixels_where id m) q r"
    and "k \<le> int (length (filter (\<lambda>r. r \<in> set (pixels_where id m) \<and>
                connected adj4 (pixels_where id m) q r) (all_pixels m)))"
proof -
  let ?S = "pixels_where id m"
  let ?size = "\<lambda>q. length (filter (\<lambda>r. r \<in> set ?S \<and> connected adj4 ?S q r) (all_pixels m))"
  let ?keep = "\<lambda>q. k \<le> int (?size q)"
  have inv: "?keep a = ?keep b" if "(a, b) \<in> link adj4 ?S" for a b
  proof -
    from that have ab: "connected adj4 ?S a b" by (auto simp: connected_def)
    then have ba: "connected adj4 ?S b a" using adj4_sym by (rule connected_sym [rotated])
    have "connected adj4 ?S a r \<longleftrightarrow> connected adj4 ?S b r" for r
      using ab ba connected_trans by blast
    then show ?thesis by simp
  qed
  from assms show k: "?keep q" unfolding fg_remove_small by simp
  from connected_filter [of adj4 ?S ?keep, OF inv k]
  show "connected adj4 (pixels_where id (remove_small_objects m k)) q r
         \<longleftrightarrow> connected adj4 ?S q r"
    unfolding fg_remove_small by blast
qed

lemma remove_small_keeps_component:
  assumes "q \<in> set (pixels_where id (remove_small_objects m k))"
    and "r \<in> set (pixels_where id m)" "connected adj4 (pixels_where id m) q r"
  shows "connected adj4 (pixels_where id (remove_small_objects m k)) q r"
  using assms remove_small_connected(1) [OF assms(1)] by blast

text \<open>
  A component that is left after both removals is at least as large as the smallest
  size that the removal of small objects lets through.
\<close>

lemma region_size:
  assumes cb: "clear_border (remove_small_objects m k) = Inr out"
    and q: "q \<in> set (pixels_where id out)"
  shows "k \<le> int (length (pixels_where (\<lambda>v. v = px (label_image adj8 out) q)
                            (label_image adj8 out)))"
proof -
  let ?m3 = "remove_small_objects m k"
  let ?S2 = "pixels_where id m" and ?S3 = "pixels_where id ?m3" and ?S4 = "pixels_where id out"
  note c = clear_border_Inr [OF cb]
  have A: "all_pixels out = all_pixels m" using c(1) by (simp add: all_pixels_remove_small)
  from q have q3: "q \<in> set ?S3" unfolding c(3) by simp
  have small: "k \<le> int (length (filter (\<lambda>r. r \<in> set ?S2 \<and> connected adj4 ?S2 q r)
                                   (all_pixels m)))"
    by (rule remove_small_connected(2) [OF q3])
  have "length (filter (\<lambda>r. r \<in> set ?S2 \<and> connected adj4 ?S2 q r) (all_pixels m))
        \<le> length (filter (\<lambda>r. r \<in> set ?S4 \<and> connected adj8 ?S4 q r) (all_pixels m))"
  proof (rule filter_length_mono)
    fix r assume "r \<in> set ?S2 \<and> connected adj4 ?S2 q r"
    then have "connected adj4 ?S3 q r" using remove_small_keeps_component [OF q3] by blast
    then have "connected adj8 ?S3 q r" using adj4_adj8 connected_mono by blast
    then have "connected adj8 ?S4 q r" using clear_border_connected [OF cb q] by blast
    moreover from this q have "r \<in> set ?S4" by (rule connected_mem)
    ultimately show "r \<in> set ?S4 \<and> connected adj8 ?S4 q r" by blast
  qed
  with small show ?thesis
    unfolding region_of_pixel [OF adj8_sym q] A by linarith
qed

subsection \<open>The regions of a label image\<close>

lemma regionprops_mem:
  assumes "(l, R) \<in> set (regionprops lab)"
  shows "R = pixels_where (\<lambda>v. v = l) lab" "R \<noteq> []" "1 \<le> l"
  using assms by (auto simp: regionprops_def split: if_splits)

lemma region_pixels_fg:
  assumes "1 \<le> l" "p \<in> set (pixels_where (\<lambda>v. v = l) (label_image adj m))"
  shows "p \<in> set (pixels_where id m)" "px (label_image adj m) p = l"
proof -
  from assms(2) have p: "p \<in> set (all_pixels m)" "px (label_image adj m) p = l"
    by (simp_all add: pixels_where_def all_pixels_label_image)
  then show "p \<in> set (pixels_where id m)"
    using assms(1) by (intro label_pos_fg [where adj = adj]) simp_all
  show "px (label_image adj m) p = l" by (rule p(2))
qed

lemma fold_max_le: "(\<And>x. x \<in> set xs \<Longrightarrow> x \<le> n) \<Longrightarrow> a \<le> n \<Longrightarrow> fold max xs (a::nat) \<le> n"
  by (induction xs arbitrary: a) simp_all

lemma label_image_le:
  assumes "symp adj" "p \<in> set (all_pixels m)"
  shows "px (label_image adj m) p \<le> length (components adj (pixels_where id m))"
proof (cases "px m p")
  case True
  with assms(2) have "p \<in> set (pixels_where id m)" by (simp add: fg_mem)
  from label_from_upper(2) [OF assms(1) this, of 1] True assms(2) show ?thesis
    by (simp add: px_label_image)
next
  case False
  with assms(2) show ?thesis by (simp add: px_label_image)
qed

lemma label_image_onto:
  assumes "symp adj" "1 \<le> l" "l \<le> length (components adj (pixels_where id m))"
  shows "\<exists>p\<in>set (all_pixels m). px (label_image adj m) p = l"
proof -
  from assms(2,3) have "l - 1 < length (components adj (pixels_where id m))" by simp
  from label_from_onto [OF assms(1) this, of 1] assms(2)
  obtain p where p: "p \<in> set (pixels_where id m)"
    "label_from 1 (components adj (pixels_where id m)) p = l" by auto
  then have "p \<in> set (all_pixels m)" "px (label_image adj m) p = l"
    by (simp_all add: fg_mem px_label_image)
  then show ?thesis by blast
qed

lemma max_label:
  assumes "symp adj"
  shows "fold max (concat (label_image adj m)) 0 = length (components adj (pixels_where id m))"
proof (rule antisym)
  show "fold max (concat (label_image adj m)) 0 \<le> length (components adj (pixels_where id m))"
  proof (rule fold_max_le)
    fix x assume "x \<in> set (concat (label_image adj m))"
    then obtain p where "p \<in> set (all_pixels m)" "x = px (label_image adj m) p"
      unfolding concat_px [of "label_image adj m"] all_pixels_label_image by auto
    with label_image_le [OF assms] show "x \<le> length (components adj (pixels_where id m))"
      by simp
  qed simp
next
  show "length (components adj (pixels_where id m)) \<le> fold max (concat (label_image adj m)) 0"
  proof (cases "length (components adj (pixels_where id m))")
    case 0
    then show ?thesis by simp
  next
    case (Suc n)
    then obtain p where "p \<in> set (all_pixels m)" "px (label_image adj m) p = Suc n"
      using label_image_onto [OF assms, of "Suc n" m] by auto
    then have "Suc n \<in> set (concat (label_image adj m))"
      unfolding concat_px [of "label_image adj m"] all_pixels_label_image by force
    then show ?thesis unfolding Suc by (rule fold_max_ge)
  qed
qed

lemma regionprops_label_image:
  assumes "symp adj"
  shows "regionprops (label_image adj m) =
           map (\<lambda>l. (l, pixels_where (\<lambda>v. v = l) (label_image adj m)))
             [1..<Suc (length (components adj (pixels_where id m)))]"
proof -
  let ?lab = "label_image adj m"
  let ?n = "length (components adj (pixels_where id m))"
  have ne: "pixels_where (\<lambda>v. v = l) ?lab \<noteq> []" if "l \<in> set [1..<Suc ?n]" for l
  proof -
    from that have "1 \<le> l" "l \<le> ?n" by (simp_all del: upt_Suc)
    from label_image_onto [OF assms this]
    obtain p where "p \<in> set (all_pixels m)" "px ?lab p = l" by blast
    then have "p \<in> set (pixels_where (\<lambda>v. v = l) ?lab)"
      by (simp add: pixels_where_def all_pixels_label_image)
    then show ?thesis by auto
  qed
  have "map (\<lambda>l. if pixels_where (\<lambda>v. v = l) ?lab = [] then []
                  else [(l, pixels_where (\<lambda>v. v = l) ?lab)]) [1..<Suc ?n]
        = map (\<lambda>l. [(l, pixels_where (\<lambda>v. v = l) ?lab)]) [1..<Suc ?n]"
    by (rule map_cong) (simp_all add: ne del: upt_Suc)
  then have "regionprops ?lab = concat (map (\<lambda>l. [(l, pixels_where (\<lambda>v. v = l) ?lab)]) [1..<Suc ?n])"
    unfolding regionprops_def max_label [OF assms] by (simp only:)
  also have "\<dots> = map (\<lambda>l. (l, pixels_where (\<lambda>v. v = l) ?lab)) [1..<Suc ?n]"
    by (induction "[1..<Suc ?n]") (simp_all del: upt_Suc add: concat_map_singleton)
  finally show ?thesis .
qed

lemma class_of:
  "a \<in> set ps \<Longrightarrow>
   {(a, b). a \<in> set ps \<and> b \<in> set ps \<and> connected adj ps a b} `` {a}
     = {b \<in> set ps. connected adj ps a b}"
  by auto

lemma component_classes_image:
  "component_classes adj ps = (\<lambda>a. {b \<in> set ps. connected adj ps a b}) ` set ps"
  unfolding component_classes_def quotient_def by (auto simp: class_of)

lemma length_components:
  assumes "symp adj"
  shows "length (components adj ps) = card (component_classes adj ps)"
proof (induction "length ps" arbitrary: ps rule: less_induct)
  case less
  show ?case
  proof (cases ps)
    case Nil
    then show ?thesis by (simp add: components.simps(1) component_classes_image)
  next
    case (Cons x xs)
    let ?rest = "filter (\<lambda>q. \<not> connected adj ps x q) ps"
    let ?cls = "\<lambda>a. {b \<in> set ps. connected adj ps a b}"
    have len: "length ?rest < length ps" unfolding Cons by (rule rest_length)
    have x: "x \<in> set ps" by (simp add: Cons)
    have same: "?cls a = ?cls x" if "connected adj ps x a" for a
    proof -
      have "connected adj ps a x" using assms that by (rule connected_sym)
      with that show ?thesis using connected_trans by blast
    qed
    have rest_cls: "{b \<in> set ?rest. connected adj ?rest a b} = ?cls a" if "a \<in> set ?rest" for a
    proof -
      from that have na: "\<not> connected adj ps x a" by simp
      have "b \<in> set ?rest" if "b \<in> set ps" "connected adj ps a b" for b
      proof -
        have "connected adj ps b a" using assms that(2) by (rule connected_sym)
        then have "\<not> connected adj ps x b" using na connected_trans by blast
        with that(1) show ?thesis by simp
      qed
      then show ?thesis using rest_connected [OF assms na] by auto
    qed
    have "component_classes adj ?rest = ?cls ` set ?rest"
      unfolding component_classes_image [of adj ?rest]
      by (rule image_cong) (simp_all only: rest_cls)
    moreover have "component_classes adj ps = insert (?cls x) (?cls ` set ?rest)"
    proof -
      have "set ps = {a \<in> set ps. connected adj ps x a} \<union> set ?rest" by auto
      then have "?cls ` set ps = ?cls ` {a \<in> set ps. connected adj ps x a} \<union> ?cls ` set ?rest"
        by (metis image_Un)
      moreover have "?cls ` {a \<in> set ps. connected adj ps x a} = {?cls x}"
      proof (rule antisym)
        show "?cls ` {a \<in> set ps. connected adj ps x a} \<subseteq> {?cls x}"
        proof
          fix c assume "c \<in> ?cls ` {a \<in> set ps. connected adj ps x a}"
          then obtain a where "connected adj ps x a" "c = ?cls a" by blast
          with same [of a] show "c \<in> {?cls x}" by simp
        qed
        have "x \<in> {a \<in> set ps. connected adj ps x a}"
          using x by (simp add: connected_refl)
        then show "{?cls x} \<subseteq> ?cls ` {a \<in> set ps. connected adj ps x a}" by blast
      qed
      ultimately show ?thesis by (simp only: component_classes_image Un_insert_left Un_empty_left)
    qed
    moreover have "?cls x \<notin> ?cls ` set ?rest"
    proof
      assume "?cls x \<in> ?cls ` set ?rest"
      then obtain a where a: "a \<in> set ?rest" "?cls x = ?cls a" by blast
      have "a \<in> ?cls a" using a(1) by (simp add: connected_refl)
      with a(2) have "connected adj ps x a" by blast
      with a(1) show False by simp
    qed
    ultimately have "card (component_classes adj ps) = Suc (card (component_classes adj ?rest))"
      by simp
    with less [OF len] show ?thesis
      by (simp add: Cons components_Cons del: filter.simps)
  qed
qed

lemma region_is_class:
  assumes "symp adj" "q \<in> set (pixels_where id m)"
  shows "set (pixels_where (\<lambda>v. v = px (label_image adj m) q) (label_image adj m))
         \<in> component_classes adj (pixels_where id m)"
proof -
  have "set (pixels_where (\<lambda>v. v = px (label_image adj m) q) (label_image adj m))
        = {b \<in> set (pixels_where id m). connected adj (pixels_where id m) q b}"
    unfolding region_of_pixel [OF assms] by (auto simp: fg_mem)
  with assms(2) show ?thesis unfolding component_classes_image by blast
qed

subsection \<open>The segmentation pipeline\<close>

lemma segment_Inr:
  assumes "segment_and_measure_spots lib im min_area cr orad = Inr (ms, out)"
  shows "length (shape im) = 2"
    and "clear_border (remove_small_objects
           (binary_opening lib orad (binary_closing lib cr
              (grid_map (\<lambda>p v. threshold_local lib (to_grid im) p < of_nat v) (to_grid im))))
           min_area) = Inr out"
    and "ms = map (measure_region (to_grid im)) (regionprops (label_image adj8 out))"
    and "map length (label_image adj8 out) = map length (to_grid im)"
  using assms
  by (auto simp: segment_and_measure_spots_def Let_def split: if_splits sum.splits)

lemma measurement_region:
  assumes "s \<in> set (map (measure_region img) (regionprops lab))"
  shows "pixels_where (\<lambda>v. v = label s) lab \<noteq> []"
    and "1 \<le> label s"
    and "area_pixels s = of_nat (length (pixels_where (\<lambda>v. v = label s) lab))"
    and "mean_intensity s =
           sum_list (map (\<lambda>p. of_nat (px img p)) (pixels_where (\<lambda>v. v = label s) lab)) /
           of_nat (length (pixels_where (\<lambda>v. v = label s) lab))"
    and "integrated_intensity s = mean_intensity s * area_pixels s"
proof -
  from assms obtain l R where r: "(l, R) \<in> set (regionprops lab)" "s = measure_region img (l, R)"
    by auto
  note m = regionprops_mem [OF r(1)]
  have l: "label s = l" by (simp add: r(2) measure_region_def Let_def)
  show "pixels_where (\<lambda>v. v = label s) lab \<noteq> []" using m by (simp add: l)
  show "1 \<le> label s" using m by (simp add: l)
  show "area_pixels s = of_nat (length (pixels_where (\<lambda>v. v = label s) lab))"
    using m(1) by (simp add: l r(2) measure_region_def Let_def)
  show "mean_intensity s =
           sum_list (map (\<lambda>p. of_nat (px img p)) (pixels_where (\<lambda>v. v = label s) lab)) /
           of_nat (length (pixels_where (\<lambda>v. v = label s) lab))"
    using m(1) by (simp add: l r(2) measure_region_def Let_def)
  show "integrated_intensity s = mean_intensity s * area_pixels s"
    unfolding r(2) by (simp add: measure_region_def Let_def)
qed

lemma row_lengths_label_image: "map length (label_image adj m) = map length m"
  by (simp add: label_image_def row_lengths_grid_map)

lemma row_lengths_remove_small: "map length (remove_small_objects m k) = map length m"
  by (simp add: remove_small_objects_def Let_def row_lengths_grid_map)

lemma row_lengths_to_grid:
  "shape im = [h, w] \<Longrightarrow> map length (to_grid im) = replicate h w"
  by (simp add: to_grid_def comp_def map_replicate_const)

lemma clear_border_returns:
  assumes "map length m = replicate h w" "0 < h" "0 < w"
  shows "\<exists>out. clear_border m = Inr out"
proof -
  from assms have "m \<noteq> []" by auto
  moreover from assms have "length (hd m) = w"
    by (cases m; cases h) auto
  ultimately show ?thesis using assms(3) by (auto simp: clear_border_def Let_def)
qed

text \<open>
  On a two-dimensional image with at least one pixel the function returns, provided
  closing and opening keep the shape of the mask, as the library functions do.
\<close>

lemma segment_returns:
  assumes "shape im = [h, w]" "0 < h" "0 < w"
    and "\<And>r m. map length (binary_closing lib r m) = map length m"
    and "\<And>r m. map length (binary_opening lib r m) = map length m"
  shows "\<exists>ms out. segment_and_measure_spots lib im min_area cr orad = Inr (ms, out)"
proof -
  let ?m2 = "binary_opening lib orad (binary_closing lib cr
              (grid_map (\<lambda>p v. threshold_local lib (to_grid im) p < of_nat v) (to_grid im)))"
  have l2: "map length (remove_small_objects ?m2 min_area) = replicate h w"
    by (simp add: row_lengths_remove_small assms(4,5) row_lengths_grid_map
          row_lengths_to_grid [OF assms(1)])
  from clear_border_returns [OF l2 assms(2,3)]
  obtain out where out: "clear_border (remove_small_objects ?m2 min_area) = Inr out" by blast
  have "map length (label_image adj8 out) = map length (to_grid im)"
    by (simp add: row_lengths_label_image clear_border_Inr(2) [OF out] l2
          row_lengths_to_grid [OF assms(1)])
  with out show ?thesis
    by (simp add: segment_and_measure_spots_def Let_def assms(1))
qed

text \<open>
  C2. The mask that is returned is the result of the removal of small objects followed
  by the clearing of the border, and the measurements are those of its label image.
  Every returned spot has at least one pixel, all its pixels are foreground pixels of
  the mask that do not lie on the border of the image, and its area is not below
  \<open>min_area\<close>.
\<close>

theorem spots_clear_of_border_and_large:
  assumes "segment_and_measure_spots lib im min_area cr orad = Inr (ms, out)"
  shows "clear_border (remove_small_objects
           (binary_opening lib orad (binary_closing lib cr
              (grid_map (\<lambda>p v. threshold_local lib (to_grid im) p < of_nat v) (to_grid im))))
           min_area) = Inr out \<and>
         ms = map (measure_region (to_grid im)) (regionprops (label_image adj8 out)) \<and>
         (\<forall>s\<in>set ms.
            pixels_where (\<lambda>v. v = label s) (label_image adj8 out) \<noteq> [] \<and>
            area_pixels s = of_nat (length (pixels_where (\<lambda>v. v = label s) (label_image adj8 out))) \<and>
            of_int min_area \<le> area_pixels s \<and>
            (\<forall>p\<in>set (pixels_where (\<lambda>v. v = label s) (label_image adj8 out)).
               px out p \<and> \<not> on_border out p))"
proof (intro conjI ballI)
  note seg = segment_Inr [OF assms]
  show "clear_border (remove_small_objects
           (binary_opening lib orad (binary_closing lib cr
              (grid_map (\<lambda>p v. threshold_local lib (to_grid im) p < of_nat v) (to_grid im))))
           min_area) = Inr out"
    by (rule seg(2))
  show "ms = map (measure_region (to_grid im)) (regionprops (label_image adj8 out))"
    by (rule seg(3))
  fix s assume "s \<in> set ms"
  then have s: "s \<in> set (map (measure_region (to_grid im)) (regionprops (label_image adj8 out)))"
    by (simp only: seg(3))
  note reg = measurement_region [OF s]
  let ?R = "pixels_where (\<lambda>v. v = label s) (label_image adj8 out)"
  show "?R \<noteq> []" by (rule reg(1))
  show area: "area_pixels s = of_nat (length ?R)" by (rule reg(3))
  from reg(1) obtain q where q: "q \<in> set ?R" by (cases ?R) auto
  note qf = region_pixels_fg [OF reg(2) q]
  from region_size [OF seg(2) qf(1)] have "min_area \<le> int (length ?R)"
    by (simp only: qf(2))
  then have "(of_int min_area :: rat) \<le> of_int (int (length ?R))"
    by (simp only: of_int_le_iff)
  then show "of_int min_area \<le> area_pixels s" by (simp add: area)
  fix p assume p: "p \<in> set ?R"
  note pf = region_pixels_fg [OF reg(2) p]
  from pf(1) show "px out p" by (simp add: fg_mem)
  show "\<not> on_border out p" by (rule region_off_border [OF seg(2) pf(1)])
qed

text \<open>
  C5. For every returned measurement, the integrated intensity is the mean intensity
  times the area, where the area is the number of pixels that carry the label of the
  measurement and the mean intensity is the sum of the image over these pixels divided
  by their number.
\<close>

theorem integrated_is_mean_times_area:
  assumes "segment_and_measure_spots lib im min_area cr orad = Inr (ms, out)"
  shows "\<forall>s\<in>set ms.
           integrated_intensity s = mean_intensity s * area_pixels s \<and>
           area_pixels s = of_nat (length (pixels_where (\<lambda>v. v = label s) (label_image adj8 out))) \<and>
           mean_intensity s =
             sum_list (map (\<lambda>p. of_nat (px (to_grid im) p))
                        (pixels_where (\<lambda>v. v = label s) (label_image adj8 out))) /
             of_nat (length (pixels_where (\<lambda>v. v = label s) (label_image adj8 out))) \<and>
           0 < area_pixels s"
proof
  note seg = segment_Inr [OF assms]
  fix s assume "s \<in> set ms"
  then have s: "s \<in> set (map (measure_region (to_grid im)) (regionprops (label_image adj8 out)))"
    by (simp only: seg(3))
  note reg = measurement_region [OF s]
  from reg(1,3) have "0 < area_pixels s" by simp
  with reg(3,4,5) show "integrated_intensity s = mean_intensity s * area_pixels s \<and>
           area_pixels s = of_nat (length (pixels_where (\<lambda>v. v = label s) (label_image adj8 out))) \<and>
           mean_intensity s =
             sum_list (map (\<lambda>p. of_nat (px (to_grid im) p))
                        (pixels_where (\<lambda>v. v = label s) (label_image adj8 out))) /
             of_nat (length (pixels_where (\<lambda>v. v = label s) (label_image adj8 out))) \<and>
           0 < area_pixels s"
    by blast
qed

text \<open>
  C10. The labels of the returned measurements are 1, 2, ..., N in this order, N is the
  number of connected components (connectivity 2) of the foreground of the returned
  mask, and the pixels of every measurement form one of these components.
\<close>

theorem one_measurement_per_component:
  assumes "segment_and_measure_spots lib im min_area cr orad = Inr (ms, out)"
  shows "map label ms = [1..<Suc (length ms)] \<and>
         length ms = card (component_classes adj8 (pixels_where id out)) \<and>
         (\<forall>s\<in>set ms. set (pixels_where (\<lambda>v. v = label s) (label_image adj8 out))
                        \<in> component_classes adj8 (pixels_where id out))"
proof (intro conjI ballI)
  note seg = segment_Inr [OF assms]
  let ?n = "length (components adj8 (pixels_where id out))"
  have ms: "ms = map (\<lambda>l. measure_region (to_grid im)
                        (l, pixels_where (\<lambda>v. v = l) (label_image adj8 out))) [1..<Suc ?n]"
    unfolding seg(3) regionprops_label_image [OF adj8_sym] by (simp add: comp_def del: upt_Suc)
  have len: "length ms = ?n" unfolding ms by (simp del: upt_Suc)
  have "map label ms = map (\<lambda>l. l) [1..<Suc ?n]"
    unfolding ms by (simp add: comp_def measure_region_def Let_def del: upt_Suc)
  then show "map label ms = [1..<Suc (length ms)]" by (simp add: len del: upt_Suc)
  show "length ms = card (component_classes adj8 (pixels_where id out))"
    unfolding len by (rule length_components [OF adj8_sym])
  fix s assume "s \<in> set ms"
  then have s: "s \<in> set (map (measure_region (to_grid im)) (regionprops (label_image adj8 out)))"
    by (simp only: seg(3))
  note reg = measurement_region [OF s]
  from reg(1) obtain q where q: "q \<in> set (pixels_where (\<lambda>v. v = label s) (label_image adj8 out))"
    by (cases "pixels_where (\<lambda>v. v = label s) (label_image adj8 out)") auto
  note qf = region_pixels_fg [OF reg(2) q]
  from region_is_class [OF adj8_sym qf(1)]
  show "set (pixels_where (\<lambda>v. v = label s) (label_image adj8 out))
          \<in> component_classes adj8 (pixels_where id out)"
    by (simp only: qf(2))
qed

section \<open>Properties of loading, normalisation and the batch\<close>

subsection \<open>Normalisation\<close>

lemma array_min_Min: "xs \<noteq> [] \<Longrightarrow> array_min xs = Min (set xs)"
  unfolding array_min_def using Min.set_eq_fold [of "hd xs" "tl xs"] by (cases xs) simp_all

lemma array_max_Max: "xs \<noteq> [] \<Longrightarrow> array_max xs = Max (set xs)"
  unfolding array_max_def using Max.set_eq_fold [of "hd xs" "tl xs"] by (cases xs) simp_all

text \<open>On every constant image the quotient is 0/0 at every pixel.\<close>

lemma normalize_float_constant:
  assumes "xs \<noteq> []" "\<forall>x\<in>set xs. x = c"
  shows "normalize_float xs = replicate (length xs) NaN"
proof -
  from assms have "set xs = {c}" by (cases xs) auto
  then have mm: "array_min xs = c" "array_max xs = c"
    using assms(1) by (simp_all add: array_min_Min array_max_Max)
  have "map (\<lambda>x. fl_mul (fl_div (of_nat x - of_nat c) (of_nat c - of_nat c)) 255) xs
        = map (\<lambda>x. NaN) xs"
    by (rule map_cong) (use assms(2) in \<open>simp_all add: fl_div_def fl_mul_def\<close>)
  then show ?thesis by (simp add: normalize_float_def mm map_replicate_const)
qed

text \<open>On an image that is not constant, the minimum goes to 0 and the maximum to 255.\<close>

lemma normalize_image_extremes:
  assumes "array_min (data img) < array_max (data img)" "k < length (data img)"
    and "normalize_image ub img = Inr out"
  shows "data img ! k = array_min (data img) \<Longrightarrow> data out ! k = 0"
    and "data img ! k = array_max (data img) \<Longrightarrow> data out ! k = 255"
proof -
  let ?mn = "array_min (data img)" and ?mx = "array_max (data img)"
  from assms(2) have ne: "data img \<noteq> []" by auto
  with assms(3) have out: "data out = map (astype_uint8 ub) (normalize_float (data img))"
    by (auto simp: normalize_image_def)
  have d: "(of_nat ?mx :: rat) - of_nat ?mn \<noteq> 0" using assms(1) by simp
  have k: "data out ! k =
      astype_uint8 ub (fl_mul (fl_div (of_nat (data img ! k) - of_nat ?mn)
                                 (of_nat ?mx - of_nat ?mn)) 255)"
    using assms(2) by (simp add: out normalize_float_def)
  show "data out ! k = 0" if "data img ! k = ?mn"
    unfolding k that using d by (simp add: fl_div_def fl_mul_def astype_uint8_def)
  show "data out ! k = 255" if "data img ! k = ?mx"
    unfolding k that using d by (simp add: fl_div_def fl_mul_def astype_uint8_def)
qed

text \<open>
  C1. On the constant 2 x 2 image of value 7 the divisor \<open>max - min\<close> is 0 and every
  quotient is 0/0: the float stage is \<open>NaN\<close> at every pixel, and the result is whatever
  the conversion to 8 bits makes of \<open>NaN\<close>. \<^verbatim>\<open>normalize_image\<close> has no guard for
  \<open>min = max\<close>.
\<close>

theorem normalize_image_constant_divides_zero_by_zero:
  "array_max [7, 7, 7, 7] - array_min [7, 7, 7, 7] = 0 \<and>
   normalize_float [7, 7, 7, 7] = [NaN, NaN, NaN, NaN] \<and>
   normalize_image ub \<lparr>shape = [2, 2], data = [7, 7, 7, 7]\<rparr> =
     Inr \<lparr>shape = [2, 2], data = [ub, ub, ub, ub]\<rparr>"
  by (simp add: normalize_image_def normalize_float_def array_min_def array_max_def
        fl_div_def fl_mul_def astype_uint8_def)

subsection \<open>Grayscale reduction\<close>

lemma astype_uint8_mean3: "astype_uint8 ub (Fin (of_nat n / 3)) = (n div 3) mod 256"
proof -
  have "\<lfloor>(of_nat n :: rat) / of_nat 3\<rfloor> = int (n div 3)"
    by (rule floor_divide_of_nat_eq)
  then have "\<lfloor>(of_nat n :: rat) / 3\<rfloor> = int (n div 3)" by simp
  then show ?thesis
    by (simp add: astype_uint8_def nat_mod_distrib)
qed

lemma index_in_range:
  assumes "i < h" "j < (w::nat)"
  shows "i * w + j < h * w"
proof -
  have "i * w + j < i * w + w" using assms(2) by simp
  also have "\<dots> = Suc i * w" by simp
  also have "\<dots> \<le> h * w" using assms(1) by (intro mult_le_mono1) simp
  finally show ?thesis .
qed

text \<open>
  C6 (as amended). For a three-dimensional array whose last axis has length 3, the
  grayscale reduction gives a two-dimensional array with the first two lengths of the
  input, and each of its pixels is the sum of the three channels divided by 3 and
  truncated (taken modulo 256 by the conversion to 8 bits), not rounded to the nearest
  integer. If the array has a pixel, loading it succeeds with an array of that shape.
\<close>

theorem rgb_to_gray_truncates:
  assumes "shape img = [h, w, 3]" "wf_array img"
  shows "shape (rgb_to_gray ub img) = [h, w] \<and>
         length (data (rgb_to_gray ub img)) = h * w \<and>
         (\<forall>i<h. \<forall>j<w.
            3 * (i * w + j) + 2 < length (data img) \<and>
            data (rgb_to_gray ub img) ! (i * w + j) =
              ((data img ! (3 * (i * w + j)) + data img ! (3 * (i * w + j) + 1) +
                data img ! (3 * (i * w + j) + 2)) div 3) mod 256) \<and>
         (0 < h * w \<longrightarrow> rd f = Array img \<longrightarrow>
            (\<exists>out. load_tif ub rd f = Some out \<and> shape out = [h, w] \<and> wf_array out))"
proof (intro conjI allI impI)
  show sh: "shape (rgb_to_gray ub img) = [h, w]"
    by (simp add: rgb_to_gray_def assms(1))
  show len: "length (data (rgb_to_gray ub img)) = h * w"
    by (simp add: rgb_to_gray_def assms(1))
  {
    fix i j assume ij: "i < h" "j < w"
    then have k: "i * w + j < h * w" by (rule index_in_range)
    from assms have "length (data img) = h * w * 3" by (simp add: wf_array_def)
    with k show "3 * (i * w + j) + 2 < length (data img)" by simp
    from k show "data (rgb_to_gray ub img) ! (i * w + j) =
              ((data img ! (3 * (i * w + j)) + data img ! (3 * (i * w + j) + 1) +
                data img ! (3 * (i * w + j) + 2)) div 3) mod 256"
      by (simp add: rgb_to_gray_def assms(1) astype_uint8_mean3 del: of_nat_add)
  }
  assume pos: "0 < h * w" and rd: "rd f = Array img"
  from pos len have ne: "data (rgb_to_gray ub img) \<noteq> []" by auto
  let ?out = "\<lparr> shape = [h, w],
                data = map (astype_uint8 ub) (normalize_float (data (rgb_to_gray ub img))) \<rparr>"
  have "load_tif ub rd f = Some ?out"
    by (simp add: load_tif_def rd assms(1) normalize_image_def ne sh)
  moreover have "wf_array ?out"
    by (simp add: wf_array_def normalize_float_def len)
  ultimately show "\<exists>out. load_tif ub rd f = Some out \<and> shape out = [h, w] \<and> wf_array out"
    by simp
qed

theorem rgb_to_gray_truncates_witness:
  "shape (rgb_to_gray 0 \<lparr>shape = [1, 2, 3], data = [0, 0, 2, 90, 100, 200]\<rparr>) = [1, 2] \<and>
   data (rgb_to_gray 0 \<lparr>shape = [1, 2, 3], data = [0, 0, 2, 90, 100, 200]\<rparr>) ! 0 = 0 \<and>
   data (rgb_to_gray 0 \<lparr>shape = [1, 2, 3], data = [0, 0, 2, 90, 100, 200]\<rparr>) ! 1 = 130 \<and>
   (\<exists>out. load_tif 0 (\<lambda>f. Array \<lparr>shape = [1, 2, 3], data = [0, 0, 2, 90, 100, 200]\<rparr>) ''a.tif''
            = Some out \<and> shape out = [1, 2] \<and> wf_array out)"
proof -
  let ?img = "\<lparr>shape = [1, 2, 3], data = [0, 0, 2, 90, 100, 200]\<rparr>"
  have h: "shape ?img = [1, 2, 3]" "wf_array ?img" by (simp_all add: wf_array_def)
  from rgb_to_gray_truncates [OF h, of 0 "\<lambda>f. Array ?img" "''a.tif''"]
  have a: "shape (rgb_to_gray 0 ?img) = [1, 2]"
    and b: "\<forall>i<1. \<forall>j<2.
            3 * (i * 2 + j) + 2 < length (data ?img) \<and>
            data (rgb_to_gray 0 ?img) ! (i * 2 + j) =
              ((data ?img ! (3 * (i * 2 + j)) + data ?img ! (3 * (i * 2 + j) + 1) +
                data ?img ! (3 * (i * 2 + j) + 2)) div 3) mod 256"
    and c: "\<exists>out. load_tif 0 (\<lambda>f. Array ?img) ''a.tif'' = Some out \<and> shape out = [1, 2] \<and>
                  wf_array out"
    by simp_all
  from b [rule_format, of 0 0] have b0: "data (rgb_to_gray 0 ?img) ! 0 = 0" by simp
  from b [rule_format, of 0 1] have b1: "data (rgb_to_gray 0 ?img) ! 1 = 130" by simp
  from a b0 b1 c show ?thesis by blast
qed

text \<open>
  The pixel (0, 0, 2) has mean 2/3, whose nearest integer is 1; the reduction gives 0.
  An array of shape (2, 1, 1, 3) also has a last axis of length 3, and it is not reduced
  to grayscale: its first plane, of three dimensions, is what is loaded.
\<close>

theorem rgb_rounding_counterexample:
  "data (rgb_to_gray 0 \<lparr>shape = [1, 1, 3], data = [0, 0, 2]\<rparr>) = [0] \<and>
   round (of_nat (0 + 0 + 2) / 3 :: rat) = 1 \<and>
   load_tif 0 (\<lambda>f. Array \<lparr>shape = [2, 1, 1, 3], data = [0, 0, 2, 3, 3, 3]\<rparr>) ''a.tif''
     = Some \<lparr>shape = [1, 1, 3], data = [0, 0, 255]\<rparr>"
  by code_simp

subsection \<open>The batch\<close>

lemma load_tif_failure:
  "rd f = Raises \<or> rd f = NotArray \<Longrightarrow> load_tif ub rd f = None"
  by (auto simp: load_tif_def)

lemma process_file_load_failed:
  "load_tif (nonfinite_cast e) (imread e) f = None \<Longrightarrow> process_file e db f = (db, LoadFailed)"
  by (simp add: process_file_def)

lemma process_folder_append:
  "process_folder e db (xs @ ys) =
     (let (db1, r1) = process_folder e db xs;
          (db2, r2) = process_folder e db1 ys
      in (db2, r1 @ r2))"
  by (induction xs arbitrary: db) (simp_all add: Let_def split: prod.splits)

lemma process_folder_names: "map fst (snd (process_folder e db fs)) = fs"
proof (induction fs arbitrary: db)
  case Nil
  then show ?case by simp
next
  case (Cons a fs)
  obtain db1 r where f: "process_file e db a = (db1, r)" by (cases "process_file e db a")
  obtain db2 rs where g: "process_folder e db1 fs = (db2, rs)"
    by (cases "process_folder e db1 fs")
  from Cons [of db1] g have "map fst rs = fs" by simp
  with f g show ?case by simp
qed

text \<open>
  C9. A file that \<^verbatim>\<open>tifffile.imread\<close> cannot read as an array makes \<^verbatim>\<open>load_tif\<close>
  return \<open>None\<close> instead of raising. A file for which \<^verbatim>\<open>load_tif\<close> returns \<open>None\<close> is
  skipped: the sink is unchanged, and the files before and after it in the batch are
  processed as if it were not there. Every file of the batch gets an outcome.
\<close>

theorem load_failure_skips_file:
  "(imread e f = Raises \<or> imread e f = NotArray \<longrightarrow>
      load_tif (nonfinite_cast e) (imread e) f = None) \<and>
   (load_tif (nonfinite_cast e) (imread e) f = None \<longrightarrow>
      process_file e db f = (db, LoadFailed) \<and>
      process_folder e db (pre @ f # post) =
        (let (db1, r1) = process_folder e db pre;
             (db2, r2) = process_folder e db1 post
         in (db2, r1 @ (f, LoadFailed) # r2))) \<and>
   map fst (snd (process_folder e db fs)) = fs"
proof (intro conjI impI)
  show "load_tif (nonfinite_cast e) (imread e) f = None"
    if "imread e f = Raises \<or> imread e f = NotArray"
    using that by (rule load_tif_failure)
  show "map fst (snd (process_folder e db fs)) = fs" by (rule process_folder_names)
  assume none: "load_tif (nonfinite_cast e) (imread e) f = None"
  then show "process_file e db f = (db, LoadFailed)" by (rule process_file_load_failed)
  show "process_folder e db (pre @ f # post) =
        (let (db1, r1) = process_folder e db pre;
             (db2, r2) = process_folder e db1 post
         in (db2, r1 @ (f, LoadFailed) # r2))"
    by (simp add: process_folder_append process_file_load_failed [OF none] Let_def
          split: prod.splits)
qed

theorem load_failure_skips_file_witness:
  "imread example_env ''bad.tif'' = Raises \<and>
   load_tif (nonfinite_cast example_env) (imread example_env) ''bad.tif'' = None \<and>
   snd (process_folder example_env empty_sink [''bad.tif'', ''good.tif'']) =
     [(''bad.tif'', LoadFailed), (''good.tif'', Stored 1)]"
proof -
  have r: "imread example_env ''bad.tif'' = Raises" by (simp add: example_env_def)
  have g: "snd (process_folder example_env empty_sink [''good.tif'']) = [(''good.tif'', Stored 1)]"
    by code_simp
  note t = load_failure_skips_file [of example_env "''bad.tif''" empty_sink "[]" "[''good.tif'']"]
  from t r have n: "load_tif (nonfinite_cast example_env) (imread example_env) ''bad.tif'' = None"
    by blast
  with t have "process_folder example_env empty_sink ([] @ ''bad.tif'' # [''good.tif'']) =
        (let (db1, r1) = process_folder example_env empty_sink [];
             (db2, r2) = process_folder example_env db1 [''good.tif'']
         in (db2, r1 @ (''bad.tif'', LoadFailed) # r2))"
    by blast
  then have "snd (process_folder example_env empty_sink [''bad.tif'', ''good.tif'']) =
      (''bad.tif'', LoadFailed) # snd (process_folder example_env empty_sink [''good.tif''])"
    by (simp add: Let_def split: prod.splits)
  with g r n show ?thesis by simp
qed

subsection \<open>Worked example of the segmentation\<close>

lemma example_segmentation:
  "segment_and_measure_spots example_lib example_image 1 3 1 =
     Inr ([\<lparr>label = 1, area_pixels = 5, mean_intensity = 210, integrated_intensity = 1050\<rparr>,
           \<lparr>label = 2, area_pixels = 1, mean_intensity = 150, integrated_intensity = 150\<rparr>],
          example_mask)"
  by code_simp

theorem spots_clear_of_border_and_large_witness:
  "segment_and_measure_spots example_lib example_image 1 3 1 =
     Inr ([\<lparr>label = 1, area_pixels = 5, mean_intensity = 210, integrated_intensity = 1050\<rparr>,
           \<lparr>label = 2, area_pixels = 1, mean_intensity = 150, integrated_intensity = 150\<rparr>],
          example_mask) \<and>
   clear_border (remove_small_objects
      (binary_opening example_lib 1 (binary_closing example_lib 3
         (grid_map (\<lambda>p v. threshold_local example_lib (to_grid example_image) p < of_nat v)
            (to_grid example_image)))) 1) = Inr example_mask \<and>
   pixels_where (\<lambda>v. v = 2) (label_image adj8 example_mask) \<noteq> [] \<and>
   (of_int 1 :: rat) \<le> 1"
proof -
  note t = spots_clear_of_border_and_large [OF example_segmentation]
  from t have "pixels_where (\<lambda>v. v = label \<lparr>label = 2, area_pixels = 1, mean_intensity = 150,
      integrated_intensity = 150\<rparr>) (label_image adj8 example_mask) \<noteq> []"
    by simp
  with t example_segmentation show ?thesis by simp
qed

theorem integrated_is_mean_times_area_witness:
  "segment_and_measure_spots example_lib example_image 1 3 1 =
     Inr ([\<lparr>label = 1, area_pixels = 5, mean_intensity = 210, integrated_intensity = 1050\<rparr>,
           \<lparr>label = 2, area_pixels = 1, mean_intensity = 150, integrated_intensity = 150\<rparr>],
          example_mask) \<and>
   (1050 :: rat) = 210 * 5 \<and>
   (5 :: rat) = of_nat (length (pixels_where (\<lambda>v. v = 1) (label_image adj8 example_mask)))"
proof -
  note t = integrated_is_mean_times_area [OF example_segmentation]
  from t have "(5 :: rat) = of_nat (length (pixels_where (\<lambda>v. v = 1) (label_image adj8 example_mask)))"
    by simp
  with example_segmentation show ?thesis by simp
qed

theorem one_measurement_per_component_witness:
  "segment_and_measure_spots example_lib example_image 1 3 1 =
     Inr ([\<lparr>label = 1, area_pixels = 5, mean_intensity = 210, integrated_intensity = 1050\<rparr>,
           \<lparr>label = 2, area_pixels = 1, mean_intensity = 150, integrated_intensity = 150\<rparr>],
          example_mask) \<and>
   card (component_classes adj8 (pixels_where id example_mask)) = 2"
proof -
  note t = one_measurement_per_component [OF example_segmentation]
  then have "card (component_classes adj8 (pixels_where id example_mask)) = 2" by simp
  with example_segmentation show ?thesis by simp
qed

end
